theory Spec2Isabelle
  imports Main
begin

section \<open>Byte-pair-encoding tokenizer of \<open>lectures/01-tokenization.ipynb\<close>\<close>

subsection \<open>Values and errors\<close>

text \<open>
  Tokens are Python ints. A \<open>bytes\<close> value is a list of numbers below 256. A \<open>str\<close> is
  a list of code points below \<open>0x110000\<close>; a Python \<open>str\<close> may hold lone surrogates
  (\<open>0xD800\<close> to \<open>0xDFFF\<close>), which the UTF-8 codec refuses to encode.
\<close>

type_synonym token = int
type_synonym byte = nat
type_synonym bytes = "nat list"
type_synonym str = "nat list"

datatype error = UnicodeEncodeError | UnicodeDecodeError | ValueError | KeyError | TypeError

subsection \<open>\<open>merge\<close>\<close>

text \<open>
  The \<open>while i < len(indices)\<close> loop of \<open>merge\<close>, with the cursor \<open>i\<close> and the output
  list \<open>new_indices\<close> as arguments. Both reads \<open>indices[i]\<close> and \<open>indices[i+1]\<close> are
  guarded by the length tests of the source, so neither can raise.
\<close>

function merge_loop :: "token list \<Rightarrow> token \<times> token \<Rightarrow> token \<Rightarrow> nat \<Rightarrow> token list \<Rightarrow> token list" where
  "merge_loop indices pair new_index i new_indices =
     (if i < length indices then
        (if i + 1 < length indices \<and> indices ! i = fst pair \<and> indices ! (i + 1) = snd pair
         then merge_loop indices pair new_index (i + 2) (new_indices @ [new_index])
         else merge_loop indices pair new_index (i + 1) (new_indices @ [indices ! i]))
      else new_indices)"
  by pat_completeness auto
termination
  by (relation "measure (\<lambda>(indices, pair, new_index, i, new_indices). length indices - i)") auto

declare merge_loop.simps [simp del]

definition merge :: "token list \<Rightarrow> token \<times> token \<Rightarrow> token \<Rightarrow> token list" where
  "merge indices pair new_index = merge_loop indices pair new_index 0 []"

text \<open>
  The single left-to-right pass as the specification words it: on a match of the current
  and the next element emit the new token and advance by two, otherwise emit the current
  element and advance by one.
\<close>

fun merge_spec :: "token list \<Rightarrow> token \<times> token \<Rightarrow> token \<Rightarrow> token list" where
  "merge_spec (x # y # rest) pair new_token =
     (if x = fst pair \<and> y = snd pair then new_token # merge_spec rest pair new_token
      else x # merge_spec (y # rest) pair new_token)"
| "merge_spec [x] pair new_token = [x]"
| "merge_spec [] pair new_token = []"

subsection \<open>UTF-8\<close>

text \<open>
  \<open>string.encode("utf-8")\<close> and \<open>string_bytes.decode("utf-8")\<close> are Python's strict
  UTF-8 codec. Encoding raises \<open>UnicodeEncodeError\<close> on a surrogate code point; decoding
  raises \<open>UnicodeDecodeError\<close> on a stray or missing continuation byte, an overlong form,
  an encoded surrogate and a code point above \<open>0x10FFFF\<close>.
\<close>

definition is_surrogate :: "nat \<Rightarrow> bool" where
  "is_surrogate c = (0xD800 \<le> c \<and> c \<le> 0xDFFF)"

definition is_cont :: "byte \<Rightarrow> bool" where
  "is_cont b = (0x80 \<le> b \<and> b \<le> 0xBF)"

definition utf8_encode_cp :: "nat \<Rightarrow> bytes option" where
  "utf8_encode_cp c =
     (if c < 0x80 then Some [c]
      else if c < 0x800 then Some [0xC0 + c div 64, 0x80 + c mod 64]
      else if c < 0x10000 then
        (if is_surrogate c then None
         else Some [0xE0 + c div 4096, 0x80 + (c div 64) mod 64, 0x80 + c mod 64])
      else if c < 0x110000 then
        Some [0xF0 + c div 262144, 0x80 + (c div 4096) mod 64, 0x80 + (c div 64) mod 64,
              0x80 + c mod 64]
      else None)"

fun utf8_encode :: "str \<Rightarrow> bytes option" where
  "utf8_encode [] = Some []"
| "utf8_encode (c # cs) =
     (case utf8_encode_cp c of
        None \<Rightarrow> None
      | Some b \<Rightarrow> (case utf8_encode cs of None \<Rightarrow> None | Some bs \<Rightarrow> Some (b @ bs)))"

definition str_encode :: "str \<Rightarrow> error + bytes" where
  "str_encode s = (case utf8_encode s of None \<Rightarrow> Inl UnicodeEncodeError | Some bs \<Rightarrow> Inr bs)"

fun utf8_decode :: "bytes \<Rightarrow> str option" where
  "utf8_decode [] = Some []"
| "utf8_decode (b0 # bs) =
     (if b0 < 0x80 then map_option ((#) b0) (utf8_decode bs)
      else if 0xC2 \<le> b0 \<and> b0 \<le> 0xDF then
        (case bs of
           b1 # bs1 \<Rightarrow>
             (if is_cont b1
              then map_option ((#) ((b0 - 0xC0) * 64 + (b1 - 0x80))) (utf8_decode bs1)
              else None)
         | _ \<Rightarrow> None)
      else if 0xE0 \<le> b0 \<and> b0 \<le> 0xEF then
        (case bs of
           b1 # b2 # bs2 \<Rightarrow>
             (let c = (b0 - 0xE0) * 4096 + (b1 - 0x80) * 64 + (b2 - 0x80)
              in if is_cont b1 \<and> is_cont b2 \<and> 0x800 \<le> c \<and> \<not> is_surrogate c
                 then map_option ((#) c) (utf8_decode bs2)
                 else None)
         | _ \<Rightarrow> None)
      else if 0xF0 \<le> b0 \<and> b0 \<le> 0xF4 then
        (case bs of
           b1 # b2 # b3 # bs3 \<Rightarrow>
             (let c = (b0 - 0xF0) * 262144 + (b1 - 0x80) * 4096 + (b2 - 0x80) * 64 + (b3 - 0x80)
              in if is_cont b1 \<and> is_cont b2 \<and> is_cont b3 \<and> 0x10000 \<le> c \<and> c < 0x110000
                 then map_option ((#) c) (utf8_decode bs3)
                 else None)
         | _ \<Rightarrow> None)
      else None)"

definition bytes_decode :: "bytes \<Rightarrow> error + str" where
  "bytes_decode bs = (case utf8_decode bs of None \<Rightarrow> Inl UnicodeDecodeError | Some s \<Rightarrow> Inr s)"

subsection \<open>Dictionaries\<close>

text \<open>
  A Python \<open>dict\<close> iterates in insertion order, and both \<open>max(counts, ...)\<close> and
  \<open>merges.items()\<close> depend on that order: a dictionary is an association list with
  one entry per key. Assigning to a key that is present keeps the entry's position.
\<close>

type_synonym ('k, 'v) dict = "('k \<times> 'v) list"

fun dict_set :: "'k \<Rightarrow> 'v \<Rightarrow> ('k, 'v) dict \<Rightarrow> ('k, 'v) dict" where
  "dict_set k v [] = [(k, v)]"
| "dict_set k v ((k', v') # d) = (if k' = k then (k, v) # d else (k', v') # dict_set k v d)"

definition dict_get :: "('k, 'v) dict \<Rightarrow> 'k \<Rightarrow> 'v option" where
  "dict_get d k = map_of d k"

definition dict_index :: "('k, 'v) dict \<Rightarrow> 'k \<Rightarrow> error + 'v" where
  "dict_index d k = (case map_of d k of None \<Rightarrow> Inl KeyError | Some v \<Rightarrow> Inr v)"

text \<open>\<open>counts[k] += 1\<close> on a \<open>defaultdict(int)\<close>: a missing key is entered with 0 first.\<close>

fun dict_incr :: "'k \<Rightarrow> ('k, int) dict \<Rightarrow> ('k, int) dict" where
  "dict_incr k [] = [(k, 1)]"
| "dict_incr k ((k', c) # d) = (if k' = k then (k', c + 1) # d else (k', c) # dict_incr k d)"

subsection \<open>\<open>train_bpe\<close>\<close>

record BPETokenizerParams =
  vocab :: "(token, bytes) dict"
  merges :: "(token \<times> token, token) dict"

text \<open>The counting pass: \<open>for index1, index2 in zip(indices, indices[1:])\<close>.\<close>

definition adjacent_pairs :: "token list \<Rightarrow> (token \<times> token) list" where
  "adjacent_pairs xs = zip xs (drop 1 xs)"

definition count_pairs :: "token list \<Rightarrow> (token \<times> token, int) dict" where
  "count_pairs xs = fold dict_incr (adjacent_pairs xs) []"

text \<open>
  \<open>max(iterable, key=f)\<close>: \<open>ValueError\<close> on an empty iterable; otherwise the first item
  is the candidate and a later item replaces it only when its key is strictly greater.
  The key \<open>counts.get\<close> returns \<open>None\<close> for a missing key, and comparing \<open>None\<close> raises
  \<open>TypeError\<close>.
\<close>

fun max_loop :: "('a \<Rightarrow> int option) \<Rightarrow> 'a \<Rightarrow> int option \<Rightarrow> 'a list \<Rightarrow> error + 'a" where
  "max_loop key maxitem maxval [] = Inr maxitem"
| "max_loop key maxitem maxval (item # rest) =
     (case (key item, maxval) of
        (Some v, Some m) \<Rightarrow>
          (if v > m then max_loop key item (Some v) rest
           else max_loop key maxitem maxval rest)
      | _ \<Rightarrow> Inl TypeError)"

fun py_max :: "('a \<Rightarrow> int option) \<Rightarrow> 'a list \<Rightarrow> error + 'a" where
  "py_max key [] = Inl ValueError"
| "py_max key (item # rest) = max_loop key item (key item) rest"

definition select_pair :: "token list \<Rightarrow> error + token \<times> token" where
  "select_pair xs = (let counts = count_pairs xs in py_max (dict_get counts) (map fst counts))"

text \<open>The variables of \<open>train_bpe\<close> that its loop updates.\<close>

record train_vars =
  cur_indices :: "token list"
  cur_merges :: "(token \<times> token, token) dict"
  cur_vocab :: "(token, bytes) dict"

text \<open>One pass through the body of \<open>for i in range(num_merges)\<close>.\<close>

definition train_iter :: "nat \<Rightarrow> train_vars \<Rightarrow> error + train_vars" where
  "train_iter i st =
     (case select_pair (cur_indices st) of
        Inl e \<Rightarrow> Inl e
      | Inr pair \<Rightarrow>
          (let index1 = fst pair; index2 = snd pair;
               new_index = 256 + int i;
               merges' = dict_set pair new_index (cur_merges st)
           in case dict_index (cur_vocab st) index1 of
                Inl e \<Rightarrow> Inl e
              | Inr v1 \<Rightarrow>
                  (case dict_index (cur_vocab st) index2 of
                     Inl e \<Rightarrow> Inl e
                   | Inr v2 \<Rightarrow>
                       Inr \<lparr>cur_indices = merge (cur_indices st) pair new_index,
                            cur_merges = merges',
                            cur_vocab = dict_set new_index (v1 @ v2) (cur_vocab st)\<rparr>)))"

fun train_loop :: "nat list \<Rightarrow> train_vars \<Rightarrow> error + train_vars" where
  "train_loop [] st = Inr st"
| "train_loop (i # rest) st =
     (case train_iter i st of Inl e \<Rightarrow> Inl e | Inr st' \<Rightarrow> train_loop rest st')"

definition base_vocab :: "(token, bytes) dict" where
  "base_vocab = map (\<lambda>x. (int x, [x])) [0..<256]"

definition train_init :: "bytes \<Rightarrow> train_vars" where
  "train_init bs = \<lparr>cur_indices = map int bs, cur_merges = [], cur_vocab = base_vocab\<rparr>"

text \<open>
  \<open>train_run\<close> is \<open>train_bpe\<close> up to its \<open>return\<close>, with the final value of \<open>indices\<close>
  still visible; \<open>num_merges\<close> is a natural number (\<open>range\<close> of a negative number is empty).
\<close>

definition train_run :: "str \<Rightarrow> nat \<Rightarrow> error + train_vars" where
  "train_run string num_merges =
     (case str_encode string of
        Inl e \<Rightarrow> Inl e
      | Inr bs \<Rightarrow> train_loop [0..<num_merges] (train_init bs))"

definition train_bpe :: "str \<Rightarrow> nat \<Rightarrow> error + BPETokenizerParams" where
  "train_bpe string num_merges =
     (case train_run string num_merges of
        Inl e \<Rightarrow> Inl e
      | Inr st \<Rightarrow> Inr \<lparr>vocab = cur_vocab st, merges = cur_merges st\<rparr>)"

subsection \<open>\<open>BPETokenizer\<close>\<close>

definition encode :: "BPETokenizerParams \<Rightarrow> str \<Rightarrow> error + token list" where
  "encode params string =
     (case str_encode string of
        Inl e \<Rightarrow> Inl e
      | Inr string_bytes \<Rightarrow>
          Inr (fold (\<lambda>(pair, new_index) indices. merge indices pair new_index)
                 (merges params) (map int string_bytes)))"

text \<open>\<open>b"".join(bytes_list)\<close> raises \<open>TypeError\<close> at an item that is \<open>None\<close>.\<close>

fun join_bytes :: "bytes option list \<Rightarrow> error + bytes" where
  "join_bytes [] = Inr []"
| "join_bytes (None # rest) = Inl TypeError"
| "join_bytes (Some b # rest) =
     (case join_bytes rest of Inl e \<Rightarrow> Inl e | Inr bs \<Rightarrow> Inr (b @ bs))"

definition decode :: "BPETokenizerParams \<Rightarrow> token list \<Rightarrow> error + str" where
  "decode params indices =
     (let bytes_list = map (dict_get (vocab params)) indices
      in case join_bytes bytes_list of
           Inl e \<Rightarrow> Inl e
         | Inr string_bytes \<Rightarrow> bytes_decode string_bytes)"

subsection \<open>Notions used to state the properties\<close>

text \<open>
  The position of the first occurrence of \<open>p\<close> in a list (the length of the list when
  \<open>p\<close> does not occur). On \<open>adjacent_pairs xs\<close> it is the index at which the
  left-to-right scan first meets the pair.
\<close>

definition first_occurrence :: "'a list \<Rightarrow> 'a \<Rightarrow> nat" where
  "first_occurrence ps p = length (takeWhile (\<lambda>q. q \<noteq> p) ps)"

text \<open>
  The invariant of the training loop at the start of iteration \<open>k\<close>, for a corpus whose
  UTF-8 bytes are \<open>bs\<close>: the vocabulary holds exactly the tokens below \<open>256 + k\<close>, in
  order, with the single bytes unchanged; every token of the current sequence is one of
  them; expanding the current sequence through the vocabulary gives \<open>bs\<close>; the merge
  rules carry the tokens \<open>256, ..., 256 + k - 1\<close> in order under pairwise distinct pairs of
  smaller tokens; no pair already merged is adjacent in the current sequence; and the
  expansion of every rule's token is the concatenation of its pair's expansions.
\<close>

definition train_inv :: "bytes \<Rightarrow> nat \<Rightarrow> train_vars \<Rightarrow> bool" where
  "train_inv bs k st \<longleftrightarrow>
     map fst (cur_vocab st) = map int [0..<256 + k]
     \<and> (\<forall>t<256. dict_get (cur_vocab st) (int t) = Some [t])
     \<and> set (cur_indices st) \<subseteq> {0..<256 + int k}
     \<and> join_bytes (map (dict_get (cur_vocab st)) (cur_indices st)) = Inr bs
     \<and> map snd (cur_merges st) = map int [256..<256 + k]
     \<and> distinct (map fst (cur_merges st))
     \<and> (\<forall>p\<in>set (map fst (cur_merges st)).
           p \<notin> set (adjacent_pairs (cur_indices st))
           \<and> 0 \<le> fst p \<and> fst p < 256 + int k \<and> 0 \<le> snd p \<and> snd p < 256 + int k)
     \<and> (\<forall>r\<in>set (cur_merges st). \<exists>va vb.
           dict_get (cur_vocab st) (fst (fst r)) = Some va
           \<and> dict_get (cur_vocab st) (snd (fst r)) = Some vb
           \<and> dict_get (cur_vocab st) (snd r) = Some (va @ vb))"

subsection \<open>Properties of \<open>merge\<close>\<close>

lemma merge_spec_drop_match:
  assumes "i + 1 < length xs" "xs ! i = fst p" "xs ! (i + 1) = snd p"
  shows "merge_spec (drop i xs) p n = n # merge_spec (drop (i + 2) xs) p n"
proof -
  have "drop i xs = xs ! i # xs ! (i + 1) # drop (i + 2) xs"
    using assms(1) by (simp add: Cons_nth_drop_Suc)
  then show ?thesis using assms(2,3) by simp
qed

lemma merge_spec_drop_nomatch:
  assumes "i < length xs" "\<not> (i + 1 < length xs \<and> xs ! i = fst p \<and> xs ! (i + 1) = snd p)"
  shows "merge_spec (drop i xs) p n = xs ! i # merge_spec (drop (i + 1) xs) p n"
proof (cases "i + 1 < length xs")
  case True
  then have "drop i xs = xs ! i # xs ! (i + 1) # drop (i + 2) xs"
    by (simp add: Cons_nth_drop_Suc)
  moreover have "drop (i + 1) xs = xs ! (i + 1) # drop (i + 2) xs"
    using True by (simp add: Cons_nth_drop_Suc)
  ultimately show ?thesis using assms(2) True by auto
next
  case False
  then have "drop i xs = [xs ! i]"
    using assms(1) by (metis Cons_nth_drop_Suc Suc_eq_plus1 drop_all not_less)
  moreover have "drop (i + 1) xs = []" using False by simp
  ultimately show ?thesis by simp
qed

lemma merge_loop_spec:
  "merge_loop xs p n i acc = acc @ merge_spec (drop i xs) p n"
proof (induction xs p n i acc rule: merge_loop.induct)
  case (1 indices pair new_index i new_indices)
  show ?case
  proof (cases "i < length indices")
    case False
    then show ?thesis by (simp add: merge_loop.simps [of indices pair new_index i])
  next
    case inb: True
    show ?thesis
    proof (cases "i + 1 < length indices \<and> indices ! i = fst pair \<and> indices ! (i + 1) = snd pair")
      case True
      have "merge_loop indices pair new_index i new_indices
            = merge_loop indices pair new_index (i + 2) (new_indices @ [new_index])"
        using inb True by (subst merge_loop.simps) simp
      also have "\<dots> = (new_indices @ [new_index]) @ merge_spec (drop (i + 2) indices) pair new_index"
        using "1.IH"(1) inb True by blast
      also have "\<dots> = new_indices @ merge_spec (drop i indices) pair new_index"
        using merge_spec_drop_match [of i indices pair new_index] True by simp
      finally show ?thesis .
    next
      case False
      have "merge_loop indices pair new_index i new_indices
            = merge_loop indices pair new_index (i + 1) (new_indices @ [indices ! i])"
        using inb False by (subst merge_loop.simps) auto
      also have "\<dots> = (new_indices @ [indices ! i]) @ merge_spec (drop (i + 1) indices) pair new_index"
        using "1.IH"(2) inb False by blast
      also have "\<dots> = new_indices @ merge_spec (drop i indices) pair new_index"
        using merge_spec_drop_nomatch [OF inb False, of new_index] by simp
      finally show ?thesis .
    qed
  qed
qed

lemma merge_eq_spec: "merge xs p n = merge_spec xs p n"
  by (simp add: merge_def merge_loop_spec)

subsection \<open>The UTF-8 codec is a bijection between encodable strings and valid byte strings\<close>

lemma split_three: "(c::nat) = (c div 4096) * 4096 + ((c div 64) mod 64) * 64 + c mod 64"
proof -
  have "c div 4096 = (c div 64) div 64" by (simp add: div_mult2_eq)
  moreover have "c = (c div 64) * 64 + c mod 64" by simp
  moreover have "c div 64 = ((c div 64) div 64) * 64 + (c div 64) mod 64" by simp
  ultimately show ?thesis by linarith
qed

lemma split_four:
  "(c::nat) = (c div 262144) * 262144 + ((c div 4096) mod 64) * 4096 + ((c div 64) mod 64) * 64 + c mod 64"
proof -
  have "c div 262144 = (c div 4096) div 64" by (simp add: div_mult2_eq)
  moreover have "c div 4096 = ((c div 4096) div 64) * 64 + (c div 4096) mod 64" by simp
  ultimately have "c div 4096 = (c div 262144) * 64 + (c div 4096) mod 64" by simp
  then show ?thesis using split_three [of c] by linarith
qed

lemma mod64_le: "(n::nat) mod 64 \<le> 63"
proof -
  have "n mod 64 < 64" by simp
  then show ?thesis by linarith
qed

lemma utf8_decode_encode_cp:
  assumes "utf8_encode_cp c = Some b"
  shows "utf8_decode (b @ rest) = map_option ((#) c) (utf8_decode rest)"
proof -
  consider (one) "c < 0x80"
    | (two) "0x80 \<le> c" "c < 0x800"
    | (three) "0x800 \<le> c" "c < 0x10000" "\<not> is_surrogate c"
    | (four) "0x10000 \<le> c" "c < 0x110000"
    using assms by (auto simp: utf8_encode_cp_def split: if_splits) 
  then show ?thesis
  proof cases
    case one
    then show ?thesis using assms by (auto simp: utf8_encode_cp_def)
  next
    case two
    then have b: "b = [0xC0 + c div 64, 0x80 + c mod 64]"
      using assms by (auto simp: utf8_encode_cp_def)
    have c: "c div 64 * 64 + c mod 64 = c" by simp
    have m: "c mod 64 < 64" by simp
    note mod64_le [simp]
    have "2 \<le> c div 64" "c div 64 \<le> 31" using two c m by linarith+
    then show ?thesis unfolding b using c m by (simp add: is_cont_def)
  next
    case three
    then have b: "b = [0xE0 + c div 4096, 0x80 + (c div 64) mod 64, 0x80 + c mod 64]"
      using assms by (auto simp: utf8_encode_cp_def)
    have c: "c div 4096 * 4096 + (c div 64) mod 64 * 64 + c mod 64 = c"
      using split_three [of c] by simp
    have m: "c mod 64 < 64" "(c div 64) mod 64 < 64" by simp_all
    note mod64_le [simp]
    have "c div 4096 \<le> 15" using three c m by linarith
    then show ?thesis unfolding b using c m three by (simp add: is_cont_def)
  next
    case four
    then have b: "b = [0xF0 + c div 262144, 0x80 + (c div 4096) mod 64, 0x80 + (c div 64) mod 64, 0x80 + c mod 64]"
      using assms by (auto simp: utf8_encode_cp_def)
    have c: "c div 262144 * 262144 + (c div 4096) mod 64 * 4096 + (c div 64) mod 64 * 64 + c mod 64 = c"
      using split_four [of c] by simp
    have m: "c mod 64 < 64" "(c div 64) mod 64 < 64" "(c div 4096) mod 64 < 64" by simp_all
    note mod64_le [simp]
    have "c div 262144 \<le> 4" using four c m by linarith
    then show ?thesis unfolding b using c m four by (simp add: is_cont_def)
  qed
qed

lemma utf8_decode_encode: "utf8_encode s = Some bs \<Longrightarrow> utf8_decode bs = Some s"
proof (induction s arbitrary: bs)
  case Nil then show ?case by simp
next
  case (Cons c cs)
  then show ?case
    by (auto simp: utf8_decode_encode_cp split: option.splits)
qed

lemma digits_two:
  assumes "r < 64"
  shows "(q * 64 + r) div 64 = (q::nat)" "(q * 64 + r) mod 64 = r"
  using assms by simp_all

lemma digits_three:
  assumes "r < 64" "q1 < 64"
  shows "(q2 * 4096 + q1 * 64 + r) div 4096 = (q2::nat)"
    "((q2 * 4096 + q1 * 64 + r) div 64) mod 64 = q1"
    "(q2 * 4096 + q1 * 64 + r) mod 64 = r"
proof -
  have e: "q2 * 4096 + q1 * 64 + r = (q2 * 64 + q1) * 64 + r" by simp
  have d: "(q2 * 4096 + q1 * 64 + r) div 64 = q2 * 64 + q1"
    by (subst e) (rule digits_two(1) [OF assms(1)])
  show "((q2 * 4096 + q1 * 64 + r) div 64) mod 64 = q1"
    by (subst d) (rule digits_two(2) [OF assms(2)])
  show "(q2 * 4096 + q1 * 64 + r) mod 64 = r"
    by (subst e) (rule digits_two(2) [OF assms(1)])
  have "(q2 * 4096 + q1 * 64 + r) div 4096 = ((q2 * 4096 + q1 * 64 + r) div 64) div 64"
    by (simp add: div_mult2_eq)
  also have "\<dots> = (q2 * 64 + q1) div 64" by (subst d) (rule refl)
  also have "\<dots> = q2" by (rule digits_two(1) [OF assms(2)])
  finally show "(q2 * 4096 + q1 * 64 + r) div 4096 = q2" .
qed

lemma digits_four:
  assumes "r < 64" "q1 < 64" "q2 < 64"
  shows "(q3 * 262144 + q2 * 4096 + q1 * 64 + r) div 262144 = (q3::nat)"
    "((q3 * 262144 + q2 * 4096 + q1 * 64 + r) div 4096) mod 64 = q2"
    "((q3 * 262144 + q2 * 4096 + q1 * 64 + r) div 64) mod 64 = q1"
    "(q3 * 262144 + q2 * 4096 + q1 * 64 + r) mod 64 = r"
proof -
  have e: "q3 * 262144 + q2 * 4096 + q1 * 64 + r = (q3 * 64 + q2) * 4096 + q1 * 64 + r" by simp
  have d: "(q3 * 262144 + q2 * 4096 + q1 * 64 + r) div 4096 = q3 * 64 + q2"
    by (subst e) (rule digits_three(1) [OF assms(1,2)])
  show "((q3 * 262144 + q2 * 4096 + q1 * 64 + r) div 4096) mod 64 = q2"
    by (subst d) (rule digits_two(2) [OF assms(3)])
  show "((q3 * 262144 + q2 * 4096 + q1 * 64 + r) div 64) mod 64 = q1"
    by (subst e) (rule digits_three(2) [OF assms(1,2)])
  show "(q3 * 262144 + q2 * 4096 + q1 * 64 + r) mod 64 = r"
    by (subst e) (rule digits_three(3) [OF assms(1,2)])
  have "(q3 * 262144 + q2 * 4096 + q1 * 64 + r) div 262144
        = ((q3 * 262144 + q2 * 4096 + q1 * 64 + r) div 4096) div 64"
    by (simp add: div_mult2_eq)
  also have "\<dots> = (q3 * 64 + q2) div 64" by (subst d) (rule refl)
  also have "\<dots> = q3" by (rule digits_two(1) [OF assms(3)])
  finally show "(q3 * 262144 + q2 * 4096 + q1 * 64 + r) div 262144 = q3" .
qed

lemma encode_cp_two:
  assumes "0xC2 \<le> b0" "b0 \<le> 0xDF" "is_cont b1"
  shows "utf8_encode_cp ((b0 - 0xC0) * 64 + (b1 - 0x80)) = Some [b0, b1]"
proof -
  define q where "q = b0 - 0xC0"
  define r where "r = b1 - 0x80"
  have qr: "b0 = 0xC0 + q" "b1 = 0x80 + r" "2 \<le> q" "q \<le> 31" "r < 64"
    using assms unfolding is_cont_def q_def r_def by linarith+
  have range: "0x80 \<le> q * 64 + r" "q * 64 + r < 0x800" using qr by linarith+
  have "utf8_encode_cp (q * 64 + r) = Some [0xC0 + (q * 64 + r) div 64, 0x80 + (q * 64 + r) mod 64]"
    using range unfolding utf8_encode_cp_def by simp
  then show ?thesis
    unfolding digits_two [OF qr(5)] qr(1,2) q_def [symmetric] r_def [symmetric] by simp
qed

lemma encode_cp_three:
  assumes "0xE0 \<le> b0" "b0 \<le> 0xEF" "is_cont b1" "is_cont b2"
    and "0x800 \<le> (b0 - 0xE0) * 4096 + (b1 - 0x80) * 64 + (b2 - 0x80)"
    and "\<not> is_surrogate ((b0 - 0xE0) * 4096 + (b1 - 0x80) * 64 + (b2 - 0x80))"
  shows "utf8_encode_cp ((b0 - 0xE0) * 4096 + (b1 - 0x80) * 64 + (b2 - 0x80)) = Some [b0, b1, b2]"
proof -
  define q2 where "q2 = b0 - 0xE0"
  define q1 where "q1 = b1 - 0x80"
  define r where "r = b2 - 0x80"
  have qr: "b0 = 0xE0 + q2" "b1 = 0x80 + q1" "b2 = 0x80 + r" "q2 \<le> 15" "q1 < 64" "r < 64"
    using assms(1-4) unfolding is_cont_def q2_def q1_def r_def by linarith+
  have range: "0x800 \<le> q2 * 4096 + q1 * 64 + r" "q2 * 4096 + q1 * 64 + r < 0x10000"
    "\<not> is_surrogate (q2 * 4096 + q1 * 64 + r)"
    using qr assms(5,6) unfolding q2_def q1_def r_def by linarith+
  have "utf8_encode_cp (q2 * 4096 + q1 * 64 + r)
        = Some [0xE0 + (q2 * 4096 + q1 * 64 + r) div 4096,
                0x80 + ((q2 * 4096 + q1 * 64 + r) div 64) mod 64,
                0x80 + (q2 * 4096 + q1 * 64 + r) mod 64]"
    using range unfolding utf8_encode_cp_def by simp
  then show ?thesis
    unfolding digits_three [OF qr(6,5)] qr(1,2,3) q2_def [symmetric] q1_def [symmetric]
      r_def [symmetric] by simp
qed

lemma encode_cp_four:
  assumes "0xF0 \<le> b0" "b0 \<le> 0xF4" "is_cont b1" "is_cont b2" "is_cont b3"
    and "0x10000 \<le> (b0 - 0xF0) * 262144 + (b1 - 0x80) * 4096 + (b2 - 0x80) * 64 + (b3 - 0x80)"
    and "(b0 - 0xF0) * 262144 + (b1 - 0x80) * 4096 + (b2 - 0x80) * 64 + (b3 - 0x80) < 0x110000"
  shows "utf8_encode_cp ((b0 - 0xF0) * 262144 + (b1 - 0x80) * 4096 + (b2 - 0x80) * 64 + (b3 - 0x80))
         = Some [b0, b1, b2, b3]"
proof -
  define q3 where "q3 = b0 - 0xF0"
  define q2 where "q2 = b1 - 0x80"
  define q1 where "q1 = b2 - 0x80"
  define r where "r = b3 - 0x80"
  have qr: "b0 = 0xF0 + q3" "b1 = 0x80 + q2" "b2 = 0x80 + q1" "b3 = 0x80 + r"
    "q2 < 64" "q1 < 64" "r < 64"
    using assms(1-5) unfolding is_cont_def q3_def q2_def q1_def r_def by linarith+
  have range: "0x10000 \<le> q3 * 262144 + q2 * 4096 + q1 * 64 + r"
    "q3 * 262144 + q2 * 4096 + q1 * 64 + r < 0x110000"
    using assms(6,7) unfolding q3_def q2_def q1_def r_def by linarith+
  have "utf8_encode_cp (q3 * 262144 + q2 * 4096 + q1 * 64 + r)
        = Some [0xF0 + (q3 * 262144 + q2 * 4096 + q1 * 64 + r) div 262144,
                0x80 + ((q3 * 262144 + q2 * 4096 + q1 * 64 + r) div 4096) mod 64,
                0x80 + ((q3 * 262144 + q2 * 4096 + q1 * 64 + r) div 64) mod 64,
                0x80 + (q3 * 262144 + q2 * 4096 + q1 * 64 + r) mod 64]"
    using range unfolding utf8_encode_cp_def by simp
  then show ?thesis
    unfolding digits_four [OF qr(7,6,5)] qr(1-4) q3_def [symmetric] q2_def [symmetric]
      q1_def [symmetric] r_def [symmetric] by simp
qed

lemma utf8_encode_Cons:
  "utf8_encode_cp c = Some b \<Longrightarrow> utf8_encode cs = Some bs \<Longrightarrow> utf8_encode (c # cs) = Some (b @ bs)"
  by simp

lemma utf8_encode_decode: "utf8_decode bs = Some s \<Longrightarrow> utf8_encode s = Some bs"
proof (induction bs arbitrary: s rule: utf8_decode.induct)
  case 1
  then show ?case by simp
next
  case (2 b0 bs)
  consider (one) "b0 < 0x80"
    | (two) "\<not> b0 < 0x80" "0xC2 \<le> b0 \<and> b0 \<le> 0xDF"
    | (three) "\<not> b0 < 0x80" "\<not> (0xC2 \<le> b0 \<and> b0 \<le> 0xDF)" "0xE0 \<le> b0 \<and> b0 \<le> 0xEF"
    | (four) "\<not> b0 < 0x80" "\<not> (0xC2 \<le> b0 \<and> b0 \<le> 0xDF)" "\<not> (0xE0 \<le> b0 \<and> b0 \<le> 0xEF)"
        "0xF0 \<le> b0 \<and> b0 \<le> 0xF4"
    | (bad) "\<not> b0 < 0x80" "\<not> (0xC2 \<le> b0 \<and> b0 \<le> 0xDF)" "\<not> (0xE0 \<le> b0 \<and> b0 \<le> 0xEF)"
        "\<not> (0xF0 \<le> b0 \<and> b0 \<le> 0xF4)"
    by blast
  then show ?case
  proof cases
    case one
    then obtain s' where s': "utf8_decode bs = Some s'" "s = b0 # s'"
      using "2.prems" by auto
    have "utf8_encode_cp b0 = Some [b0]" using one by (simp add: utf8_encode_cp_def)
    then show ?thesis using "2.IH"(1) [OF one s'(1)] s'(2) by simp
  next
    case two
    then obtain b1 bs1 s' where p: "bs = b1 # bs1" "is_cont b1" "utf8_decode bs1 = Some s'"
      "s = ((b0 - 0xC0) * 64 + (b1 - 0x80)) # s'"
      using "2.prems" by (auto split: list.splits if_splits)
    have "utf8_encode s' = Some bs1"
      using "2.IH"(2) [OF two p(1,2,3)] .
    then show ?thesis
      using encode_cp_two [of b0 b1] two p by simp
  next
    case three
    then obtain b1 b2 bs2 s' where p: "bs = b1 # b2 # bs2" "is_cont b1" "is_cont b2"
      "0x800 \<le> (b0 - 0xE0) * 4096 + (b1 - 0x80) * 64 + (b2 - 0x80)"
      "\<not> is_surrogate ((b0 - 0xE0) * 4096 + (b1 - 0x80) * 64 + (b2 - 0x80))"
      "utf8_decode bs2 = Some s'"
      "s = ((b0 - 0xE0) * 4096 + (b1 - 0x80) * 64 + (b2 - 0x80)) # s'"
      using "2.prems" by (auto simp: Let_def split: list.splits if_splits)
    have "utf8_encode s' = Some bs2"
      using "2.IH"(3) [OF three p(1) refl refl] p(2-6) by blast
    then show ?thesis
      using encode_cp_three [of b0 b1 b2] three p by simp
  next
    case four
    then obtain b1 b2 b3 bs3 s' where p: "bs = b1 # b2 # b3 # bs3" "is_cont b1" "is_cont b2" "is_cont b3"
      "0x10000 \<le> (b0 - 0xF0) * 262144 + (b1 - 0x80) * 4096 + (b2 - 0x80) * 64 + (b3 - 0x80)"
      "(b0 - 0xF0) * 262144 + (b1 - 0x80) * 4096 + (b2 - 0x80) * 64 + (b3 - 0x80) < 0x110000"
      "utf8_decode bs3 = Some s'"
      "s = ((b0 - 0xF0) * 262144 + (b1 - 0x80) * 4096 + (b2 - 0x80) * 64 + (b3 - 0x80)) # s'"
      using "2.prems" by (auto simp: Let_def split: list.splits if_splits)
    have "utf8_encode s' = Some bs3"
      using "2.IH"(4) [OF four p(1) refl refl refl] p(2-7) by blast
    then show ?thesis
      using encode_cp_four [of b0 b1 b2 b3] four p by simp
  next
    case bad
    have "utf8_decode (b0 # bs) = None"
      by (simp only: utf8_decode.simps bad if_False)
    then show ?thesis using "2.prems" by simp
  qed
qed

subsection \<open>Dictionaries, the counting pass and \<open>max\<close>\<close>

lemma map_of_dict_set: "map_of (dict_set k v d) = (map_of d)(k \<mapsto> v)"
  by (induction d) (auto simp: fun_eq_iff)

lemma keys_dict_set:
  "map fst (dict_set k v d) = (if k \<in> set (map fst d) then map fst d else map fst d @ [k])"
  by (induction d) force+

lemma length_dict_set:
  "length (dict_set k v d) = (if k \<in> set (map fst d) then length d else Suc (length d))"
  by (induction d) force+

lemma dict_set_fresh: "k \<notin> set (map fst d) \<Longrightarrow> dict_set k v d = d @ [(k, v)]"
  by (induction d) auto

lemma map_of_dict_incr:
  "map_of (dict_incr k d) = (map_of d)(k \<mapsto> (case map_of d k of None \<Rightarrow> 1 | Some c \<Rightarrow> c + 1))"
  by (induction d) (auto simp: fun_eq_iff)

lemma keys_dict_incr:
  "map fst (dict_incr k d) = (if k \<in> set (map fst d) then map fst d else map fst d @ [k])"
  by (induction d) force+

lemma counts_keys_set: "set (map fst (fold dict_incr ps [])) = set ps"
  by (induction ps rule: rev_induct) (auto simp: keys_dict_incr)

lemma counts_keys_distinct: "distinct (map fst (fold dict_incr ps []))"
  by (induction ps rule: rev_induct) (auto simp: keys_dict_incr)

lemma counts_lookup:
  "map_of (fold dict_incr ps []) p = (if p \<in> set ps then Some (int (count_list ps p)) else None)"
proof (induction ps rule: rev_induct)
  case Nil
  then show ?case by simp
next
  case (snoc x ps)
  then show ?case by (auto simp: map_of_dict_incr)
qed

lemma counts_keys_prefix:
  "map fst (fold dict_incr ps []) = a @ r # b \<Longrightarrow>
   \<exists>pre post. ps = pre @ r # post \<and> set pre = set a"
proof (induction ps arbitrary: b rule: rev_induct)
  case Nil
  then show ?case by simp
next
  case (snoc x ps)
  let ?ks = "map fst (fold dict_incr ps [])"
  show ?case
  proof (cases "x \<in> set ?ks")
    case True
    then have "?ks = a @ r # b" using snoc.prems by (simp add: keys_dict_incr)
    then obtain pre post where "ps = pre @ r # post" "set pre = set a"
      using snoc.IH by blast
    then have "ps @ [x] = pre @ r # (post @ [x])" by simp
    then show ?thesis using \<open>set pre = set a\<close> by blast
  next
    case False
    then have e: "?ks @ [x] = a @ r # b" using snoc.prems by (simp add: keys_dict_incr)
    show ?thesis
    proof (cases b rule: rev_cases)
      case Nil
      then have "?ks = a" "r = x" using e by simp_all
      then have "set ps = set a" using counts_keys_set [of ps] by simp
      then show ?thesis using \<open>r = x\<close> by blast
    next
      case (snoc b' y)
      then have "?ks = a @ r # b'" using e by simp
      then obtain pre post where "ps = pre @ r # post" "set pre = set a"
        using snoc.IH by blast
      then have "ps @ [x] = pre @ r # (post @ [x])" by simp
      then show ?thesis using \<open>set pre = set a\<close> by blast
    qed
  qed
qed

lemma max_loop_first_max:
  assumes "\<forall>x\<in>set (m # items). key x = Some (c x)"
  shows "\<exists>r a b. max_loop key m (key m) items = Inr r \<and> m # items = a @ r # b
           \<and> (\<forall>x\<in>set a. c x < c r) \<and> (\<forall>x\<in>set b. c x \<le> c r)"
  using assms
proof (induction items arbitrary: m)
  case Nil
  show ?case
    by (rule exI [of _ m], rule exI [of _ "[]"], rule exI [of _ "[]"]) simp
next
  case (Cons y ys)
  have ky: "key y = Some (c y)" and km: "key m = Some (c m)" using Cons.prems by simp_all
  show ?case
  proof (cases "c y > c m")
    case True
    have "\<forall>x\<in>set (y # ys). key x = Some (c x)" using Cons.prems by simp
    from Cons.IH [OF this] obtain r a b where
      r: "max_loop key y (key y) ys = Inr r" "y # ys = a @ r # b"
         "\<forall>x\<in>set a. c x < c r" "\<forall>x\<in>set b. c x \<le> c r"
      by blast
    have "y \<in> set a \<or> y = r" using r(2) by (cases a) auto
    then have "c y \<le> c r" using r(3) by auto
    then have "c m < c r" using True by simp
    moreover have "m # y # ys = (m # a) @ r # b" using r(2) by simp
    moreover have "max_loop key m (key m) (y # ys) = Inr r"
      using r(1) True ky km by simp
    ultimately show ?thesis using r(3,4) by (metis set_ConsD)
  next
    case False
    have "\<forall>x\<in>set (m # ys). key x = Some (c x)" using Cons.prems by simp
    from Cons.IH [OF this] obtain r a b where
      r: "max_loop key m (key m) ys = Inr r" "m # ys = a @ r # b"
         "\<forall>x\<in>set a. c x < c r" "\<forall>x\<in>set b. c x \<le> c r"
      by blast
    have ml: "max_loop key m (key m) (y # ys) = Inr r"
      using r(1) False ky km by simp
    show ?thesis
    proof (cases a)
      case Nil
      then have "r = m" "b = ys" using r(2) by simp_all
      then have "m # y # ys = [] @ r # (y # ys)" "\<forall>x\<in>set (y # ys). c x \<le> c r"
        using r(4) False by auto
      then show ?thesis using ml by (metis empty_iff empty_set)
    next
      case (Cons m' a')
      then have "m' = m" "ys = a' @ r # b" using r(2) by simp_all
      then have "c m < c r" using r(3) Cons by simp
      then have "\<forall>x\<in>set (m # y # a'). c x < c r" using r(3) Cons False by auto
      moreover have "m # y # ys = (m # y # a') @ r # b" using \<open>ys = a' @ r # b\<close> by simp
      ultimately show ?thesis using ml r(4) by blast
    qed
  qed
qed

subsection \<open>Pair selection and the unfolding of the training loop\<close>

lemma adjacent_pairs_Nil_iff: "adjacent_pairs xs = [] \<longleftrightarrow> length xs < 2"
  by (cases xs; cases "tl xs") (auto simp: adjacent_pairs_def)

lemma length_adjacent_pairs: "length (adjacent_pairs xs) = length xs - 1"
  by (simp add: adjacent_pairs_def)

lemma select_pair_empty: "length xs < 2 \<Longrightarrow> select_pair xs = Inl ValueError"
proof -
  assume "length xs < 2"
  then have "adjacent_pairs xs = []" by (simp add: adjacent_pairs_Nil_iff)
  then show ?thesis by (simp add: select_pair_def count_pairs_def)
qed

lemma select_pair_first_max:
  assumes "2 \<le> length xs"
  shows "\<exists>p pre post. select_pair xs = Inr p \<and> adjacent_pairs xs = pre @ p # post
           \<and> (\<forall>q\<in>set pre. count_list (adjacent_pairs xs) q < count_list (adjacent_pairs xs) p)
           \<and> (\<forall>q\<in>set (adjacent_pairs xs).
                 count_list (adjacent_pairs xs) q \<le> count_list (adjacent_pairs xs) p)"
proof -
  let ?ps = "adjacent_pairs xs"
  let ?counts = "count_pairs xs"
  let ?c = "\<lambda>q. int (count_list ?ps q)"
  have ne: "?ps \<noteq> []" using assms by (simp add: adjacent_pairs_Nil_iff)
  have ks: "set (map fst ?counts) = set ?ps"
    unfolding count_pairs_def by (rule counts_keys_set)
  then have "map fst ?counts \<noteq> []" using ne by (metis set_empty)
  then obtain m items where mi: "map fst ?counts = m # items" by (cases "map fst ?counts") auto
  have "set (m # items) = set ?ps" using ks mi by metis
  then have key: "\<forall>x\<in>set (m # items). dict_get ?counts x = Some (?c x)"
    by (auto simp: dict_get_def count_pairs_def counts_lookup)
  from max_loop_first_max [OF key] obtain r a b where
    r: "max_loop (dict_get ?counts) m (dict_get ?counts m) items = Inr r"
       "m # items = a @ r # b" "\<forall>x\<in>set a. ?c x < ?c r" "\<forall>x\<in>set b. ?c x \<le> ?c r"
    by blast
  have sel: "select_pair xs = Inr r"
    using r(1) mi by (simp add: select_pair_def Let_def)
  have "map fst (fold dict_incr ?ps []) = a @ r # b"
    using mi r(2) by (simp add: count_pairs_def)
  from counts_keys_prefix [OF this] obtain pre post where
    pp: "?ps = pre @ r # post" "set pre = set a" by blast
  have le: "\<forall>q\<in>set ?ps. count_list ?ps q \<le> count_list ?ps r"
  proof
    fix q assume "q \<in> set ?ps"
    then have "q \<in> set (a @ r # b)" using ks mi r(2) by simp
    then have "?c q \<le> ?c r" using r(3,4) by auto
    then show "count_list ?ps q \<le> count_list ?ps r" by (simp only: of_nat_le_iff)
  qed
  have lt: "\<forall>q\<in>set pre. count_list ?ps q < count_list ?ps r"
  proof
    fix q assume "q \<in> set pre"
    then have "?c q < ?c r" using r(3) pp(2) by simp
    then show "count_list ?ps q < count_list ?ps r" by (simp only: of_nat_less_iff)
  qed
  show ?thesis using sel pp(1) le lt by blast
qed

lemma takeWhile_neq_append:
  "q \<notin> set pre \<Longrightarrow> takeWhile (\<lambda>x. x \<noteq> q) (pre @ rest) = pre @ takeWhile (\<lambda>x. x \<noteq> q) rest"
  by (induction pre) auto

lemma first_occurrence_split:
  assumes "ps = pre @ p # post" "p \<notin> set pre"
  shows "first_occurrence ps p = length pre"
  using assms by (simp add: first_occurrence_def takeWhile_neq_append)

lemma first_occurrence_after:
  assumes "ps = pre @ p # post" "q \<notin> set pre" "q \<noteq> p"
  shows "length pre < first_occurrence ps q"
proof -
  have "takeWhile (\<lambda>x. x \<noteq> q) ps = pre @ p # takeWhile (\<lambda>x. x \<noteq> q) post"
    using assms by (simp add: takeWhile_neq_append)
  then show ?thesis by (simp add: first_occurrence_def)
qed

lemma select_pair_earliest:
  assumes "2 \<le> length xs"
  shows "\<exists>p. select_pair xs = Inr p \<and> p \<in> set (adjacent_pairs xs)
           \<and> (\<forall>q\<in>set (adjacent_pairs xs).
                 count_list (adjacent_pairs xs) q \<le> count_list (adjacent_pairs xs) p)
           \<and> (\<forall>q\<in>set (adjacent_pairs xs).
                 q \<noteq> p \<and> count_list (adjacent_pairs xs) q = count_list (adjacent_pairs xs) p
                 \<longrightarrow> first_occurrence (adjacent_pairs xs) p < first_occurrence (adjacent_pairs xs) q)"
proof -
  let ?ps = "adjacent_pairs xs"
  from select_pair_first_max [OF assms] obtain p pre post where
    p: "select_pair xs = Inr p" "?ps = pre @ p # post"
       "\<forall>q\<in>set pre. count_list ?ps q < count_list ?ps p"
       "\<forall>q\<in>set ?ps. count_list ?ps q \<le> count_list ?ps p"
    by blast
  have npre: "p \<notin> set pre" using p(3) by auto
  have fo: "first_occurrence ?ps p = length pre"
    using first_occurrence_split [OF p(2) npre] .
  have "\<forall>q\<in>set ?ps. q \<noteq> p \<and> count_list ?ps q = count_list ?ps p
          \<longrightarrow> first_occurrence ?ps p < first_occurrence ?ps q"
  proof (intro ballI impI)
    fix q assume "q \<in> set ?ps" and q: "q \<noteq> p \<and> count_list ?ps q = count_list ?ps p"
    then have "q \<notin> set pre" using p(3) by auto
    then show "first_occurrence ?ps p < first_occurrence ?ps q"
      using first_occurrence_after [OF p(2)] q fo by simp
  qed
  moreover have "p \<in> set ?ps" using p(2) by simp
  ultimately show ?thesis using p(1,4) by blast
qed

lemma train_loop_append:
  "train_loop (xs @ ys) st = (case train_loop xs st of Inl e \<Rightarrow> Inl e | Inr st' \<Rightarrow> train_loop ys st')"
  by (induction xs arbitrary: st) (auto split: sum.splits)

lemma train_run_0: "str_encode s = Inr bs \<Longrightarrow> train_run s 0 = Inr (train_init bs)"
  by (simp add: train_run_def)

lemma train_run_Suc:
  "train_run s (Suc k) = (case train_run s k of Inl e \<Rightarrow> Inl e | Inr st \<Rightarrow> train_iter k st)"
  by (auto simp: train_run_def train_loop_append split: sum.splits)

lemma train_iter_Inr:
  assumes "train_iter i st = Inr st'"
  shows "\<exists>p v1 v2. select_pair (cur_indices st) = Inr p
           \<and> dict_index (cur_vocab st) (fst p) = Inr v1
           \<and> dict_index (cur_vocab st) (snd p) = Inr v2
           \<and> st' = \<lparr>cur_indices = merge (cur_indices st) p (256 + int i),
                     cur_merges = dict_set p (256 + int i) (cur_merges st),
                     cur_vocab = dict_set (256 + int i) (v1 @ v2) (cur_vocab st)\<rparr>"
  using assms by (auto simp: train_iter_def Let_def split: sum.splits)

subsection \<open>What \<open>merge\<close> does to adjacent pairs and to byte expansions\<close>

lemma adjacent_pairs_simps [simp]:
  "adjacent_pairs [] = []"
  "adjacent_pairs [x] = []"
  "adjacent_pairs (x # y # rest) = (x, y) # adjacent_pairs (y # rest)"
  by (simp_all add: adjacent_pairs_def)

lemma adjacent_pairs_members:
  "p \<in> set (adjacent_pairs xs) \<Longrightarrow> fst p \<in> set xs \<and> snd p \<in> set xs"
  unfolding adjacent_pairs_def
  by (metis in_set_dropD prod.collapse set_zip_leftD set_zip_rightD)

lemma set_merge_spec: "set (merge_spec xs p n) \<subseteq> insert n (set xs)"
  by (induction xs p n rule: merge_spec.induct) auto

lemma merge_spec_Nil_iff: "merge_spec xs p n = [] \<longleftrightarrow> xs = []"
  by (induction xs p n rule: merge_spec.induct) auto

lemma hd_merge_spec: "xs \<noteq> [] \<Longrightarrow> hd (merge_spec xs p n) = hd xs \<or> hd (merge_spec xs p n) = n"
  by (induction xs p n rule: merge_spec.induct) auto

lemma adjacent_pairs_Cons:
  "ys \<noteq> [] \<Longrightarrow> adjacent_pairs (x # ys) = (x, hd ys) # adjacent_pairs ys"
  by (cases ys) auto

lemma merged_pair_gone:
  assumes "n \<noteq> fst p" "n \<noteq> snd p"
  shows "p \<notin> set (adjacent_pairs (merge_spec xs p n))"
  using assms
proof (induction xs p n rule: merge_spec.induct)
  case (1 x y rest pair new_token)
  show ?case
  proof (cases "x = fst pair \<and> y = snd pair")
    case True
    show ?thesis
    proof (cases "rest = []")
      case True
      then show ?thesis using \<open>x = fst pair \<and> y = snd pair\<close> by simp
    next
      case False
      then have "merge_spec rest pair new_token \<noteq> []" by (simp add: merge_spec_Nil_iff)
      moreover have "(new_token, hd (merge_spec rest pair new_token)) \<noteq> pair"
        using 1(3) by (metis fst_conv)
      ultimately show ?thesis
        using True 1 by (auto simp: adjacent_pairs_Cons)
    qed
  next
    case False
    have ne: "merge_spec (y # rest) pair new_token \<noteq> []" by (simp add: merge_spec_Nil_iff)
    have "hd (merge_spec (y # rest) pair new_token) = y \<or> hd (merge_spec (y # rest) pair new_token) = new_token"
      using hd_merge_spec [of "y # rest" pair new_token] by simp
    then have "(x, hd (merge_spec (y # rest) pair new_token)) \<noteq> pair"
      using False 1(4) by auto
    then show ?thesis
      using False 1 ne by (auto simp: adjacent_pairs_Cons)
  qed
qed simp_all

lemma old_pairs_only:
  assumes "n \<noteq> fst q" "n \<noteq> snd q" "q \<in> set (adjacent_pairs (merge_spec xs p n))"
  shows "q \<in> set (adjacent_pairs xs)"
  using assms
proof (induction xs p n rule: merge_spec.induct)
  case (1 x y rest pair new_token)
  show ?case
  proof (cases "x = fst pair \<and> y = snd pair")
    case True
    show ?thesis
    proof (cases "rest = []")
      case True
      then show ?thesis using \<open>x = fst pair \<and> y = snd pair\<close> 1(5) by simp
    next
      case False
      then have ne: "merge_spec rest pair new_token \<noteq> []" by (simp add: merge_spec_Nil_iff)
      have "q \<in> set (adjacent_pairs (merge_spec rest pair new_token))"
        using True 1(3,5) ne by (auto simp: adjacent_pairs_Cons)
      then have "q \<in> set (adjacent_pairs rest)" using 1(1) True 1(3,4) by blast
      then show ?thesis by (cases rest) auto
    qed
  next
    case False
    have ne: "merge_spec (y # rest) pair new_token \<noteq> []" by (simp add: merge_spec_Nil_iff)
    have hd: "hd (merge_spec (y # rest) pair new_token) = y \<or> hd (merge_spec (y # rest) pair new_token) = new_token"
      using hd_merge_spec [of "y # rest" pair new_token] by simp
    have "q = (x, hd (merge_spec (y # rest) pair new_token)) \<or> q \<in> set (adjacent_pairs (merge_spec (y # rest) pair new_token))"
      using False 1(5) ne by (auto simp: adjacent_pairs_Cons)
    then show ?thesis
    proof
      assume "q = (x, hd (merge_spec (y # rest) pair new_token))"
      then have "q = (x, y)" using hd 1(4) by auto
      then show ?thesis by simp
    next
      assume "q \<in> set (adjacent_pairs (merge_spec (y # rest) pair new_token))"
      then have "q \<in> set (adjacent_pairs (y # rest))" using 1(2) False 1(3,4) by blast
      then show ?thesis by simp
    qed
  qed
qed simp_all

lemma join_bytes_Cons:
  "join_bytes (x # rest) =
     (case x of None \<Rightarrow> Inl TypeError
      | Some b \<Rightarrow> (case join_bytes rest of Inl e \<Rightarrow> Inl e | Inr bs \<Rightarrow> Inr (b @ bs)))"
  by (cases x) simp_all

lemma join_bytes_map:
  "join_bytes (map f xs) =
     (if \<exists>t\<in>set xs. f t = None then Inl TypeError
      else Inr (concat (map (\<lambda>t. the (f t)) xs)))"
  by (induction xs) (auto simp: join_bytes_Cons split: option.splits)

lemma join_bytes_Inr_iff:
  "join_bytes (map f xs) = Inr bs \<longleftrightarrow>
     (\<forall>t\<in>set xs. f t \<noteq> None) \<and> bs = concat (map (\<lambda>t. the (f t)) xs)"
  by (auto simp: join_bytes_map)

lemma join_bytes_merge_spec:
  assumes "f (fst p) = Some va" "f (snd p) = Some vb" "f n = Some (va @ vb)"
  shows "join_bytes (map f (merge_spec xs p n)) = join_bytes (map f xs)"
  using assms
  by (induction xs p n rule: merge_spec.induct)
     (auto simp: join_bytes_Cons split: sum.splits option.splits)

subsection \<open>The invariant of the training loop\<close>

lemma select_pair_Inr:
  assumes "select_pair xs = Inr p"
  shows "2 \<le> length xs \<and> p \<in> set (adjacent_pairs xs)"
proof -
  have l: "2 \<le> length xs"
    using assms select_pair_empty [of xs] by (cases "length xs < 2") auto
  from select_pair_earliest [OF l] assms show ?thesis using l by auto
qed

lemma dict_index_Inr: "dict_index d k = Inr v \<longleftrightarrow> dict_get d k = Some v"
  by (auto simp: dict_index_def dict_get_def split: option.splits)

lemma dict_get_dict_set: "dict_get (dict_set k v d) k' = (if k' = k then Some v else dict_get d k')"
  by (simp add: dict_get_def map_of_dict_set)

lemma dict_get_Some_key: "dict_get d k = Some v \<Longrightarrow> k \<in> set (map fst d)"
  unfolding dict_get_def by (metis map_of_eq_None_iff option.distinct(1) set_map)

lemma snd_dict_set_fresh: "k \<notin> set (map fst d) \<Longrightarrow> map snd (dict_set k v d) = map snd d @ [v]"
  by (simp add: dict_set_fresh)

lemma utf8_encode_cp_bytes:
  assumes "utf8_encode_cp c = Some b"
  shows "\<forall>x\<in>set b. x < 256"
proof -
  have m: "c mod 64 < 64" "(c div 64) mod 64 < 64" "(c div 4096) mod 64 < 64" by simp_all
  have d: "c < 0x800 \<Longrightarrow> c div 64 < 32" "c < 0x10000 \<Longrightarrow> c div 4096 < 16"
    "c < 0x110000 \<Longrightarrow> c div 262144 < 16"
    by (simp_all add: div_less_iff_less_mult)
  show ?thesis
    using assms m d unfolding utf8_encode_cp_def
    by (auto split: if_splits simp del: mod_less_divisor)
qed

lemma utf8_encode_bytes: "utf8_encode s = Some bs \<Longrightarrow> \<forall>x\<in>set bs. x < 256"
proof (induction s arbitrary: bs)
  case Nil
  then show ?case by simp
next
  case (Cons c cs)
  then show ?case using utf8_encode_cp_bytes [of c]
    by (auto split: option.splits)
qed

lemma base_vocab_keys: "map fst base_vocab = map int [0..<256]"
  by (simp add: base_vocab_def comp_def)

lemma map_of_single_bytes:
  "t \<in> set xs \<Longrightarrow> map_of (map (\<lambda>x. (int x, [x])) xs) (int t) = Some [t]"
  by (induction xs) auto

lemma base_vocab_get: "t < 256 \<Longrightarrow> dict_get base_vocab (int t) = Some [t]"
  by (simp add: dict_get_def base_vocab_def map_of_single_bytes)

lemma join_bytes_base_vocab:
  "\<forall>b\<in>set bs. b < 256 \<Longrightarrow> join_bytes (map (dict_get base_vocab) (map int bs)) = Inr bs"
  by (induction bs) (simp_all add: base_vocab_get)

lemma train_inv_init:
  assumes "\<forall>b\<in>set bs. b < 256"
  shows "train_inv bs 0 (train_init bs)"
  unfolding train_inv_def train_init_def
  using assms join_bytes_base_vocab [OF assms]
  by (auto simp: base_vocab_keys base_vocab_get)

lemma train_inv_step:
  assumes inv: "train_inv bs k st" and it: "train_iter k st = Inr st'"
  shows "train_inv bs (Suc k) st'"
proof -
  let ?n = "256 + int k"
  from train_iter_Inr [OF it] obtain p v1 v2 where
    sel: "select_pair (cur_indices st) = Inr p"
    and v1: "dict_get (cur_vocab st) (fst p) = Some v1"
    and v2: "dict_get (cur_vocab st) (snd p) = Some v2"
    and st': "st' = \<lparr>cur_indices = merge (cur_indices st) p ?n,
                     cur_merges = dict_set p ?n (cur_merges st),
                     cur_vocab = dict_set ?n (v1 @ v2) (cur_vocab st)\<rparr>"
    by (auto simp: dict_index_Inr)
  let ?xs = "cur_indices st" and ?ms = "cur_merges st" and ?vs = "cur_vocab st"
  have i1: "map fst ?vs = map int [0..<256 + k]"
    and i2: "\<forall>t<256. dict_get ?vs (int t) = Some [t]"
    and i3: "set ?xs \<subseteq> {0..<?n}"
    and i4: "join_bytes (map (dict_get ?vs) ?xs) = Inr bs"
    and i5: "map snd ?ms = map int [256..<256 + k]"
    and i6: "distinct (map fst ?ms)"
    and i7: "\<forall>p\<in>set (map fst ?ms). p \<notin> set (adjacent_pairs ?xs)
              \<and> 0 \<le> fst p \<and> fst p < ?n \<and> 0 \<le> snd p \<and> snd p < ?n"
    and i8: "\<forall>r\<in>set ?ms. \<exists>va vb. dict_get ?vs (fst (fst r)) = Some va
              \<and> dict_get ?vs (snd (fst r)) = Some vb \<and> dict_get ?vs (snd r) = Some (va @ vb)"
    using inv unfolding train_inv_def by blast+
  have pin: "p \<in> set (adjacent_pairs ?xs)" using select_pair_Inr [OF sel] by simp
  then have pm: "fst p \<in> set ?xs" "snd p \<in> set ?xs" using adjacent_pairs_members by blast+
  then have pb: "0 \<le> fst p" "fst p < ?n" "0 \<le> snd p" "snd p < ?n" using i3 by auto
  have nfresh: "?n \<notin> set (map fst ?vs)" unfolding i1 by auto
  have nxs: "?n \<notin> set ?xs" using i3 by auto
  have pnew: "p \<notin> set (map fst ?ms)" using i7 pin by blast
  have vs': "cur_vocab st' = ?vs @ [(?n, v1 @ v2)]"
    using nfresh by (simp add: st' dict_set_fresh)
  have ms': "cur_merges st' = ?ms @ [(p, ?n)]"
    using pnew by (simp add: st' dict_set_fresh)
  have xs': "cur_indices st' = merge_spec ?xs p ?n" by (simp add: st' merge_eq_spec)
  have get': "\<And>t. dict_get (cur_vocab st') t = (if t = ?n then Some (v1 @ v2) else dict_get ?vs t)"
    by (simp add: st' dict_get_dict_set)
  have up: "[0..<256 + Suc k] = [0..<256 + k] @ [256 + k]"
    "[256..<256 + Suc k] = [256..<256 + k] @ [256 + k]"
    using upt_Suc_append [of 0 "256 + k"] upt_Suc_append [of 256 "256 + k"] by simp_all
  have c1: "map fst (cur_vocab st') = map int [0..<256 + Suc k]"
    unfolding vs' up using i1 by simp
  have c2: "\<forall>t<256. dict_get (cur_vocab st') (int t) = Some [t]"
    using i2 by (auto simp: get')
  have c3: "set (cur_indices st') \<subseteq> {0..<256 + int (Suc k)}"
  proof
    fix x assume "x \<in> set (cur_indices st')"
    then have "x = ?n \<or> x \<in> set ?xs"
      unfolding xs' using set_merge_spec [of ?xs p ?n] by blast
    then have "0 \<le> x \<and> x \<le> ?n" using i3 by auto
    then show "x \<in> {0..<256 + int (Suc k)}" by simp
  qed
  have "join_bytes (map (dict_get (cur_vocab st')) (merge_spec ?xs p ?n))
        = join_bytes (map (dict_get (cur_vocab st')) ?xs)"
    by (rule join_bytes_merge_spec [where va = v1 and vb = v2]) (use pb v1 v2 in \<open>simp_all add: get'\<close>)
  also have "map (dict_get (cur_vocab st')) ?xs = map (dict_get ?vs) ?xs"
    using nxs by (auto simp: get')
  finally have c4: "join_bytes (map (dict_get (cur_vocab st')) (cur_indices st')) = Inr bs"
    using i4 xs' by simp
  have c5: "map snd (cur_merges st') = map int [256..<256 + Suc k]"
    unfolding ms' up using i5 by simp
  have c6: "distinct (map fst (cur_merges st'))"
    unfolding ms' using i6 pnew by simp
  have c7: "\<forall>q\<in>set (map fst (cur_merges st')). q \<notin> set (adjacent_pairs (cur_indices st'))
              \<and> 0 \<le> fst q \<and> fst q < 256 + int (Suc k) \<and> 0 \<le> snd q \<and> snd q < 256 + int (Suc k)"
  proof
    fix q assume "q \<in> set (map fst (cur_merges st'))"
    then consider (old) "q \<in> set (map fst ?ms)" | (new) "q = p" unfolding ms' by auto
    then show "q \<notin> set (adjacent_pairs (cur_indices st'))
              \<and> 0 \<le> fst q \<and> fst q < 256 + int (Suc k) \<and> 0 \<le> snd q \<and> snd q < 256 + int (Suc k)"
    proof cases
      case old
      then have q: "q \<notin> set (adjacent_pairs ?xs)" "0 \<le> fst q" "fst q < ?n" "0 \<le> snd q" "snd q < ?n"
        using i7 by blast+
      then have "q \<notin> set (adjacent_pairs (merge_spec ?xs p ?n))"
        using old_pairs_only [of ?n q ?xs p] by auto
      then show ?thesis using q xs' by simp
    next
      case new
      have "p \<notin> set (adjacent_pairs (merge_spec ?xs p ?n))"
        using merged_pair_gone [of ?n p ?xs] pb by auto
      then show ?thesis using new pb xs' by simp
    qed
  qed
  have c8: "\<forall>r\<in>set (cur_merges st'). \<exists>va vb. dict_get (cur_vocab st') (fst (fst r)) = Some va
              \<and> dict_get (cur_vocab st') (snd (fst r)) = Some vb
              \<and> dict_get (cur_vocab st') (snd r) = Some (va @ vb)"
  proof
    fix r assume "r \<in> set (cur_merges st')"
    then consider (old) "r \<in> set ?ms" | (new) "r = (p, ?n)" unfolding ms' by auto
    then show "\<exists>va vb. dict_get (cur_vocab st') (fst (fst r)) = Some va
              \<and> dict_get (cur_vocab st') (snd (fst r)) = Some vb
              \<and> dict_get (cur_vocab st') (snd r) = Some (va @ vb)"
    proof cases
      case old
      then obtain va vb where e: "dict_get ?vs (fst (fst r)) = Some va"
        "dict_get ?vs (snd (fst r)) = Some vb" "dict_get ?vs (snd r) = Some (va @ vb)"
        using i8 by blast
      have "fst (fst r) \<noteq> ?n" "snd (fst r) \<noteq> ?n" "snd r \<noteq> ?n"
        using e nfresh dict_get_Some_key by metis+
      then show ?thesis using e by (simp add: get')
    next
      case new
      then show ?thesis using v1 v2 pb by (simp add: get')
    qed
  qed
  show ?thesis
    unfolding train_inv_def using c1 c2 c3 c4 c5 c6 c7 c8 by blast
qed

lemma train_run_inv:
  assumes "utf8_encode s = Some bs" "train_run s k = Inr st"
  shows "train_inv bs k st"
  using assms(2)
proof (induction k arbitrary: st)
  case 0
  then have "st = train_init bs" using assms(1) by (simp add: train_run_def str_encode_def)
  then show ?case using train_inv_init utf8_encode_bytes [OF assms(1)] by simp
next
  case (Suc k)
  then obtain st0 where "train_run s k = Inr st0" "train_iter k st0 = Inr st"
    by (auto simp: train_run_Suc split: sum.splits)
  then show ?case using Suc.IH train_inv_step by blast
qed

lemma train_run_encodable:
  "train_run s k = Inr st \<Longrightarrow> \<exists>bs. utf8_encode s = Some bs"
  by (auto simp: train_run_def str_encode_def split: option.splits)

subsection \<open>Consequences of the invariant\<close>

lemma train_inv_lengths:
  assumes "train_inv bs k st"
  shows "length (cur_merges st) = k" "length (cur_vocab st) = 256 + k"
proof -
  have "length (map snd (cur_merges st)) = length (map int [256..<256 + k])"
    using assms unfolding train_inv_def by simp
  then show "length (cur_merges st) = k" by simp
  have "length (map fst (cur_vocab st)) = length (map int [0..<256 + k])"
    using assms unfolding train_inv_def by simp
  then show "length (cur_vocab st) = 256 + k" by simp
qed

lemma train_inv_vocab_dom:
  assumes "train_inv bs k st" "0 \<le> t" "t < 256 + int k"
  shows "\<exists>v. dict_get (cur_vocab st) t = Some v"
proof -
  have "nat t \<in> set [0..<256 + k]" using assms(2,3) by auto
  then have "int (nat t) \<in> set (map int [0..<256 + k])" by (metis imageI set_map)
  then have "t \<in> set (map fst (cur_vocab st))"
    using assms(1,2) unfolding train_inv_def by simp
  then show ?thesis
    unfolding dict_get_def by (metis map_of_eq_None_iff not_Some_eq set_map)
qed

lemma train_iter_append:
  assumes inv: "train_inv bs k st" and it: "train_iter k st = Inr st'"
  shows "\<exists>p v. select_pair (cur_indices st) = Inr p
           \<and> p \<notin> set (map fst (cur_merges st))
           \<and> cur_indices st' = merge (cur_indices st) p (256 + int k)
           \<and> cur_merges st' = cur_merges st @ [(p, 256 + int k)]
           \<and> cur_vocab st' = cur_vocab st @ [(256 + int k, v)]"
proof -
  let ?n = "256 + int k"
  from train_iter_Inr [OF it] obtain p v1 v2 where
    sel: "select_pair (cur_indices st) = Inr p"
    and st': "st' = \<lparr>cur_indices = merge (cur_indices st) p ?n,
                     cur_merges = dict_set p ?n (cur_merges st),
                     cur_vocab = dict_set ?n (v1 @ v2) (cur_vocab st)\<rparr>"
    by blast
  have "p \<in> set (adjacent_pairs (cur_indices st))" using select_pair_Inr [OF sel] by simp
  then have pnew: "p \<notin> set (map fst (cur_merges st))"
    using inv unfolding train_inv_def by blast
  have "map fst (cur_vocab st) = map int [0..<256 + k]"
    using inv unfolding train_inv_def by blast
  then have nfresh: "?n \<notin> set (map fst (cur_vocab st))" by auto
  show ?thesis
    using sel pnew dict_set_fresh [OF pnew] dict_set_fresh [OF nfresh] by (simp add: st')
qed

lemma train_iter_total:
  assumes inv: "train_inv bs k st"
  shows "train_iter k st =
           (if length (cur_indices st) < 2 then Inl ValueError
            else Inr \<lparr>cur_indices = merge (cur_indices st) (projr (select_pair (cur_indices st))) (256 + int k),
                      cur_merges = dict_set (projr (select_pair (cur_indices st))) (256 + int k) (cur_merges st),
                      cur_vocab = dict_set (256 + int k)
                        (the (dict_get (cur_vocab st) (fst (projr (select_pair (cur_indices st)))))
                         @ the (dict_get (cur_vocab st) (snd (projr (select_pair (cur_indices st))))))
                        (cur_vocab st)\<rparr>)"
proof (cases "length (cur_indices st) < 2")
  case True
  then show ?thesis by (simp add: train_iter_def select_pair_empty)
next
  case False
  then have "2 \<le> length (cur_indices st)" by simp
  from select_pair_earliest [OF this] obtain p where
    p: "select_pair (cur_indices st) = Inr p" "p \<in> set (adjacent_pairs (cur_indices st))"
    by blast
  have "fst p \<in> set (cur_indices st)" "snd p \<in> set (cur_indices st)"
    using adjacent_pairs_members [OF p(2)] by simp_all
  then have "0 \<le> fst p" "fst p < 256 + int k" "0 \<le> snd p" "snd p < 256 + int k"
    using inv unfolding train_inv_def by auto
  then obtain v1 v2 where
    "dict_get (cur_vocab st) (fst p) = Some v1" "dict_get (cur_vocab st) (snd p) = Some v2"
    using train_inv_vocab_dom [OF inv] by blast
  then show ?thesis
    using False p(1) by (simp add: train_iter_def dict_index_def dict_get_def Let_def)
qed

lemma train_run_prefix:
  assumes enc: "utf8_encode s = Some bs"
  shows "train_run s k = Inr st \<Longrightarrow> j \<le> k \<Longrightarrow>
         \<exists>stj. train_run s j = Inr stj \<and> cur_merges stj = take j (cur_merges st)
               \<and> cur_vocab stj = take (256 + j) (cur_vocab st)"
proof (induction k arbitrary: st)
  case 0
  then have "j = 0" by simp
  have "train_inv bs 0 st" using train_run_inv [OF enc "0.prems"(1)] .
  then show ?case using "0.prems"(1) \<open>j = 0\<close> train_inv_lengths [of bs 0 st] by simp
next
  case (Suc k)
  obtain st0 where st0: "train_run s k = Inr st0" "train_iter k st0 = Inr st"
    using Suc.prems(1) by (auto simp: train_run_Suc split: sum.splits)
  have inv0: "train_inv bs k st0" using train_run_inv [OF enc st0(1)] .
  from train_iter_append [OF inv0 st0(2)] obtain p v where
    app: "cur_merges st = cur_merges st0 @ [(p, 256 + int k)]"
         "cur_vocab st = cur_vocab st0 @ [(256 + int k, v)]"
    by blast
  have len0: "length (cur_merges st0) = k" "length (cur_vocab st0) = 256 + k"
    using train_inv_lengths [OF inv0] .
  show ?case
  proof (cases "j = Suc k")
    case True
    have "length (cur_merges st) = Suc k" "length (cur_vocab st) = 256 + Suc k"
      using app len0 by simp_all
    then show ?thesis using True Suc.prems(1) by simp
  next
    case False
    then have "j \<le> k" using Suc.prems(2) by simp
    from Suc.IH [OF st0(1) this] obtain stj where
      "train_run s j = Inr stj" "cur_merges stj = take j (cur_merges st0)"
      "cur_vocab stj = take (256 + j) (cur_vocab st0)"
      by blast
    then show ?thesis using app len0 \<open>j \<le> k\<close> by simp
  qed
qed

lemma train_bpe_Inr:
  "train_bpe s k = Inr params \<longleftrightarrow>
     (\<exists>st. train_run s k = Inr st \<and> params = \<lparr>vocab = cur_vocab st, merges = cur_merges st\<rparr>)"
  by (auto simp: train_bpe_def split: sum.splits)

lemma fold_merge_expansion:
  assumes "\<forall>r\<in>set ms. \<exists>va vb. f (fst (fst r)) = Some va \<and> f (snd (fst r)) = Some vb
             \<and> f (snd r) = Some (va @ vb)"
  shows "join_bytes (map f (fold (\<lambda>(pair, new_index) indices. merge indices pair new_index) ms xs))
         = join_bytes (map f xs)"
  using assms
proof (induction ms arbitrary: xs)
  case Nil
  then show ?case by simp
next
  case (Cons r ms)
  obtain va vb where "f (fst (fst r)) = Some va" "f (snd (fst r)) = Some vb"
    "f (snd r) = Some (va @ vb)"
    using Cons.prems by auto
  then have "join_bytes (map f (merge xs (fst r) (snd r))) = join_bytes (map f xs)"
    unfolding merge_eq_spec by (rule join_bytes_merge_spec)
  moreover have "\<forall>r\<in>set ms. \<exists>va vb. f (fst (fst r)) = Some va \<and> f (snd (fst r)) = Some vb
             \<and> f (snd r) = Some (va @ vb)"
    using Cons.prems by simp
  ultimately show ?case using Cons.IH [of "merge xs (fst r) (snd r)"]
    by (simp add: case_prod_beta)
qed

lemma join_bytes_single_bytes:
  assumes "\<forall>t<256. f (int t) = Some [t]" "\<forall>b\<in>set bs. b < 256"
  shows "join_bytes (map f (map int bs)) = Inr bs"
  using assms(2)
proof (induction bs)
  case Nil
  then show ?case by simp
next
  case (Cons b bs)
  then have "f (int b) = Some [b]" using assms(1) by simp
  then show ?case using Cons by simp
qed

lemma decode_eq:
  "decode params indices =
     (if \<exists>t\<in>set indices. dict_get (vocab params) t = None then Inl TypeError
      else bytes_decode (concat (map (\<lambda>t. the (dict_get (vocab params) t)) indices)))"
  by (auto simp: decode_def join_bytes_map)

lemma utf8_decode_None_iff: "utf8_decode bs = None \<longleftrightarrow> (\<forall>s. utf8_encode s \<noteq> Some bs)"
  by (metis utf8_decode_encode utf8_encode_decode option.distinct(1) not_Some_eq)

lemma utf8_decode_Some_iff: "utf8_decode bs = Some s \<longleftrightarrow> utf8_encode s = Some bs"
  using utf8_decode_encode utf8_encode_decode by blast

subsection \<open>Concrete runs\<close>

lemma base_vocab_fresh:
  assumes "256 \<le> n"
  shows "dict_set n v base_vocab = base_vocab @ [(n, v)]"
proof -
  have "n \<notin> set (map fst base_vocab)" using assms unfolding base_vocab_keys by auto
  then show ?thesis by (rule dict_set_fresh)
qed

lemma train_iter_eval:
  assumes "select_pair (cur_indices st) = Inr p"
    and "dict_get (cur_vocab st) (fst p) = Some v1"
    and "dict_get (cur_vocab st) (snd p) = Some v2"
  shows "train_iter i st =
           Inr \<lparr>cur_indices = merge (cur_indices st) p (256 + int i),
                cur_merges = dict_set p (256 + int i) (cur_merges st),
                cur_vocab = dict_set (256 + int i) (v1 @ v2) (cur_vocab st)\<rparr>"
  using assms by (simp add: train_iter_def dict_index_def dict_get_def Let_def)

lemma enc_abab: "utf8_encode [97, 98, 97, 98] = Some [97, 98, 97, 98]"
  by (simp add: utf8_encode_cp_def)

lemma sel_abab: "select_pair [97, 98, 97, 98] = Inr (97, 98)"
  by (simp add: select_pair_def count_pairs_def adjacent_pairs_def dict_get_def)

lemma run_abab_0: "train_run [97, 98, 97, 98] 0 = Inr (train_init [97, 98, 97, 98])"
  unfolding train_run_def str_encode_def enc_abab by simp

lemma run_abab_1:
  "train_run [97, 98, 97, 98] 1 =
     Inr \<lparr>cur_indices = [256, 256], cur_merges = [((97, 98), 256)],
          cur_vocab = base_vocab @ [(256, [97, 98])]\<rparr>"
proof -
  have "train_iter 0 (train_init [97, 98, 97, 98]) =
     Inr \<lparr>cur_indices = [256, 256], cur_merges = [((97, 98), 256)],
          cur_vocab = base_vocab @ [(256, [97, 98])]\<rparr>"
    using train_iter_eval [of "train_init [97, 98, 97, 98]" "(97, 98)" "[97]" "[98]" 0]
      base_vocab_get [of 97] base_vocab_get [of 98]
    by (simp add: train_init_def sel_abab merge_eq_spec base_vocab_fresh)
  then show ?thesis
    using train_run_Suc [of "[97, 98, 97, 98]" 0] run_abab_0 by simp
qed

lemma run_empty_Suc: "train_run [] (Suc k) = Inl ValueError"
proof (induction k)
  case 0
  have "train_iter 0 (train_init []) = Inl ValueError"
    by (simp add: train_iter_def train_init_def select_pair_empty)
  then show ?case using train_run_Suc [of "[]" 0] by (simp add: train_run_def str_encode_def)
next
  case (Suc k)
  then show ?case using train_run_Suc [of "[]" "Suc k"] by simp
qed

section \<open>The claims\<close>

text \<open>
  C4. For every token sequence, pair and new token, \<open>merge\<close> equals the reference single
  left-to-right pass (match: emit the new token, advance by two; otherwise emit the current
  element, advance by one). It is a total function, and on the two examples of the
  specification it returns \<open>[1,9,4,9,5]\<close> and \<open>[7,5]\<close>.
\<close>

theorem merge_refines_single_pass:
  "merge indices pair new_index = merge_spec indices pair new_index
   \<and> merge [1, 2, 3, 4, 2, 3, 5] (2, 3) 9 = [1, 9, 4, 9, 5]
   \<and> merge [5, 5, 5] (5, 5) 7 = [7, 5]"
  by (simp add: merge_def merge_loop_spec)

lemma bpe_abab_1:
  "train_bpe [97, 98, 97, 98] 1 =
     Inr \<lparr>vocab = base_vocab @ [(256, [97, 98])], merges = [((97, 98), 256)]\<rparr>"
  unfolding train_bpe_def run_abab_1 by simp

lemma enc_abc: "str_encode [97, 98, 99] = Inr [97, 98, 99]"
  by (simp add: str_encode_def utf8_encode_cp_def)

text \<open>
  C1. Round trip. For every tokenizer whose parameters \<open>train_bpe\<close> returned (on any
  corpus, with any number of merges) and every string that has a UTF-8 encoding,
  \<open>encode\<close> returns a token list and \<open>decode\<close> of that list returns the string.
\<close>

theorem bpe_round_trip:
  assumes "train_bpe corpus num_merges = Inr params" and "str_encode s = Inr bs"
  shows "\<exists>tokens. encode params s = Inr tokens \<and> decode params tokens = Inr s"
proof -
  obtain st where st: "train_run corpus num_merges = Inr st"
    and params: "params = \<lparr>vocab = cur_vocab st, merges = cur_merges st\<rparr>"
    using assms(1) by (auto simp: train_bpe_Inr)
  obtain cbs where "utf8_encode corpus = Some cbs" using train_run_encodable [OF st] by blast
  then have inv: "train_inv cbs num_merges st" using train_run_inv st by blast
  have enc: "utf8_encode s = Some bs"
    using assms(2) by (auto simp: str_encode_def split: option.splits)
  let ?f = "dict_get (vocab params)"
  let ?tokens = "fold (\<lambda>(pair, new_index) indices. merge indices pair new_index)
                   (merges params) (map int bs)"
  have e: "encode params s = Inr ?tokens" using assms(2) by (simp add: encode_def)
  have rules: "\<forall>r\<in>set (merges params). \<exists>va vb. ?f (fst (fst r)) = Some va
                 \<and> ?f (snd (fst r)) = Some vb \<and> ?f (snd r) = Some (va @ vb)"
    using inv unfolding train_inv_def params by simp
  have single: "\<forall>t<256. ?f (int t) = Some [t]"
    using inv unfolding train_inv_def params by simp
  have "join_bytes (map ?f ?tokens) = join_bytes (map ?f (map int bs))"
    using fold_merge_expansion [OF rules] .
  also have "\<dots> = Inr bs"
    using join_bytes_single_bytes [OF single utf8_encode_bytes [OF enc]] .
  finally have "decode params ?tokens = bytes_decode bs" by (simp add: decode_def)
  also have "\<dots> = Inr s" using utf8_decode_encode [OF enc] by (simp add: bytes_decode_def)
  finally show ?thesis using e by blast
qed

theorem bpe_round_trip_witness:
  "train_bpe [97, 98, 97, 98] 1
     = Inr \<lparr>vocab = base_vocab @ [(256, [97, 98])], merges = [((97, 98), 256)]\<rparr>
   \<and> str_encode [97, 98, 99] = Inr [97, 98, 99]
   \<and> (\<exists>tokens. encode \<lparr>vocab = base_vocab @ [(256, [97, 98])], merges = [((97, 98), 256)]\<rparr>
                   [97, 98, 99] = Inr tokens
        \<and> decode \<lparr>vocab = base_vocab @ [(256, [97, 98])], merges = [((97, 98), 256)]\<rparr> tokens
            = Inr [97, 98, 99])"
  using bpe_round_trip [OF bpe_abab_1 enc_abc] bpe_abab_1 enc_abc by blast

text \<open>
  C2, as stated, fails: the loop of \<open>train_bpe\<close> has no early stop, and on the empty
  corpus with one requested merge \<open>max\<close> is called on an empty \<open>counts\<close> and raises
  \<open>ValueError\<close>. A corpus that holds a lone surrogate makes \<open>string.encode\<close> raise
  before the loop, even for zero merges.
\<close>

theorem train_bpe_empty_corpus_raises:
  "train_bpe [] 1 = Inl ValueError \<and> train_bpe [0xD800] 0 = Inl UnicodeEncodeError"
proof -
  have "train_bpe [] 1 = Inl ValueError"
    using run_empty_Suc [of 0] by (simp add: train_bpe_def)
  moreover have "train_bpe [0xD800] 0 = Inl UnicodeEncodeError"
    by (simp add: train_bpe_def train_run_def str_encode_def utf8_encode_cp_def is_surrogate_def)
  ultimately show ?thesis by blast
qed

text \<open>
  C2, amended. \<open>train_bpe\<close> always terminates. For a corpus without a UTF-8 encoding
  it raises \<open>UnicodeEncodeError\<close>, whatever the number of merges. For a corpus with one,
  the only error it can raise is \<open>ValueError\<close>: after \<open>k\<close> completed iterations there
  are exactly \<open>k\<close> merge rules and \<open>256 + k\<close> vocabulary entries; iteration \<open>k\<close>
  succeeds when the current token sequence has at least two elements and raises
  \<open>ValueError\<close> when it has fewer; once raised, the error is the result for every larger
  number of merges. On the empty corpus, zero merges return the base vocabulary of 256
  entries with no merge rules, and every positive number of merges raises \<open>ValueError\<close>.
\<close>

theorem train_bpe_outcome:
  "(\<forall>e k. str_encode corpus = Inl e \<longrightarrow> train_bpe corpus k = Inl UnicodeEncodeError)
   \<and> (\<forall>bs. str_encode corpus = Inr bs \<longrightarrow>
         train_run corpus 0 = Inr (train_init bs)
         \<and> (\<forall>k st. train_run corpus k = Inr st \<longrightarrow>
               length (cur_merges st) = k \<and> length (cur_vocab st) = 256 + k
               \<and> (if length (cur_indices st) < 2
                  then train_run corpus (Suc k) = Inl ValueError
                  else \<exists>st'. train_run corpus (Suc k) = Inr st'))
         \<and> (\<forall>k e. train_run corpus k = Inl e \<longrightarrow>
               e = ValueError \<and> train_run corpus (Suc k) = Inl ValueError))
   \<and> (\<forall>k. train_bpe corpus k
          = (case train_run corpus k of
               Inl e \<Rightarrow> Inl e
             | Inr st \<Rightarrow> Inr \<lparr>vocab = cur_vocab st, merges = cur_merges st\<rparr>))
   \<and> train_bpe [] 0 = Inr \<lparr>vocab = base_vocab, merges = []\<rparr>
   \<and> length base_vocab = 256
   \<and> (\<forall>k. train_bpe [] (Suc k) = Inl ValueError)"
proof -
  have z: "\<forall>e k. str_encode corpus = Inl e \<longrightarrow> train_bpe corpus k = Inl UnicodeEncodeError"
    by (auto simp: train_bpe_def train_run_def str_encode_def split: option.splits)
  have r: "\<forall>bs. str_encode corpus = Inr bs \<longrightarrow>
         train_run corpus 0 = Inr (train_init bs)
         \<and> (\<forall>k st. train_run corpus k = Inr st \<longrightarrow>
               length (cur_merges st) = k \<and> length (cur_vocab st) = 256 + k
               \<and> (if length (cur_indices st) < 2
                  then train_run corpus (Suc k) = Inl ValueError
                  else \<exists>st'. train_run corpus (Suc k) = Inr st'))
         \<and> (\<forall>k e. train_run corpus k = Inl e \<longrightarrow>
               e = ValueError \<and> train_run corpus (Suc k) = Inl ValueError)"
  proof (intro allI impI)
    fix bs assume se: "str_encode corpus = Inr bs"
    have enc: "utf8_encode corpus = Some bs"
      using se by (auto simp: str_encode_def split: option.splits)
    have a: "train_run corpus 0 = Inr (train_init bs)" using se by (simp add: train_run_def)
    have b: "\<forall>k st. train_run corpus k = Inr st \<longrightarrow>
               length (cur_merges st) = k \<and> length (cur_vocab st) = 256 + k
               \<and> (if length (cur_indices st) < 2
                  then train_run corpus (Suc k) = Inl ValueError
                  else \<exists>st'. train_run corpus (Suc k) = Inr st')"
    proof (intro allI impI)
      fix k st assume st: "train_run corpus k = Inr st"
      have inv: "train_inv bs k st" using train_run_inv [OF enc st] .
      show "length (cur_merges st) = k \<and> length (cur_vocab st) = 256 + k
               \<and> (if length (cur_indices st) < 2
                  then train_run corpus (Suc k) = Inl ValueError
                  else \<exists>st'. train_run corpus (Suc k) = Inr st')"
        using train_inv_lengths [OF inv] train_iter_total [OF inv] st
        by (simp add: train_run_Suc)
    qed
    have c: "\<forall>k e. train_run corpus k = Inl e \<longrightarrow>
               e = ValueError \<and> train_run corpus (Suc k) = Inl ValueError"
    proof (intro allI)
      fix k e
      show "train_run corpus k = Inl e \<longrightarrow>
               e = ValueError \<and> train_run corpus (Suc k) = Inl ValueError"
      proof (induction k)
        case 0
        then show ?case using a by simp
      next
        case (Suc k)
        show ?case
        proof (cases "train_run corpus k")
          case (Inl e')
          then show ?thesis using Suc by (simp add: train_run_Suc)
        next
          case (Inr st)
          have inv: "train_inv bs k st" using train_run_inv [OF enc Inr] .
          show ?thesis
            using train_iter_total [OF inv] Inr
            by (auto simp: train_run_Suc split: if_splits)
        qed
      qed
    qed
    show "train_run corpus 0 = Inr (train_init bs)
         \<and> (\<forall>k st. train_run corpus k = Inr st \<longrightarrow>
               length (cur_merges st) = k \<and> length (cur_vocab st) = 256 + k
               \<and> (if length (cur_indices st) < 2
                  then train_run corpus (Suc k) = Inl ValueError
                  else \<exists>st'. train_run corpus (Suc k) = Inr st'))
         \<and> (\<forall>k e. train_run corpus k = Inl e \<longrightarrow>
               e = ValueError \<and> train_run corpus (Suc k) = Inl ValueError)"
      using a b c by blast
  qed
  have t: "\<forall>k. train_bpe corpus k
          = (case train_run corpus k of
               Inl e \<Rightarrow> Inl e
             | Inr st \<Rightarrow> Inr \<lparr>vocab = cur_vocab st, merges = cur_merges st\<rparr>)"
    by (simp add: train_bpe_def)
  have d: "train_bpe [] 0 = Inr \<lparr>vocab = base_vocab, merges = []\<rparr>"
    by (simp add: train_bpe_def train_run_def str_encode_def train_init_def)
  have e: "length base_vocab = 256" by (simp add: base_vocab_def)
  have f: "\<forall>k. train_bpe [] (Suc k) = Inl ValueError"
    using run_empty_Suc by (simp add: train_bpe_def)
  show ?thesis using z r t d e f by blast
qed

theorem train_bpe_outcome_witness:
  "str_encode [97] = Inr [97]
   \<and> train_run [97] 0 = Inr (train_init [97])
   \<and> train_run [97] 1 = Inl ValueError
   \<and> train_run [97] 2 = Inl ValueError
   \<and> train_bpe [97] 2 = Inl ValueError"
proof -
  have h: "str_encode [97] = Inr [97]"
    by (simp add: str_encode_def utf8_encode_cp_def)
  note t = train_bpe_outcome [of "[97]"]
  have r: "train_run [97] 0 = Inr (train_init [97])
         \<and> (\<forall>k st. train_run [97] k = Inr st \<longrightarrow>
               length (cur_merges st) = k \<and> length (cur_vocab st) = 256 + k
               \<and> (if length (cur_indices st) < 2
                  then train_run [97] (Suc k) = Inl ValueError
                  else \<exists>st'. train_run [97] (Suc k) = Inr st'))
         \<and> (\<forall>k e. train_run [97] k = Inl e \<longrightarrow>
               e = ValueError \<and> train_run [97] (Suc k) = Inl ValueError)"
    using t h by blast
  have a: "train_run [97] 0 = Inr (train_init [97])" using r by blast
  have "\<forall>k st. train_run [97] k = Inr st \<longrightarrow>
               length (cur_merges st) = k \<and> length (cur_vocab st) = 256 + k
               \<and> (if length (cur_indices st) < 2
                  then train_run [97] (Suc k) = Inl ValueError
                  else \<exists>st'. train_run [97] (Suc k) = Inr st')"
    using r by blast
  from this [rule_format, OF a] have b: "train_run [97] (Suc 0) = Inl ValueError"
    by (simp add: train_init_def)
  have "\<forall>k e. train_run [97] k = Inl e \<longrightarrow>
             e = ValueError \<and> train_run [97] (Suc k) = Inl ValueError"
    using r by blast
  from this [rule_format, OF b] have c: "train_run [97] (Suc (Suc 0)) = Inl ValueError"
    by simp
  have "train_bpe [97] (Suc (Suc 0))
          = (case train_run [97] (Suc (Suc 0)) of
               Inl e \<Rightarrow> Inl e
             | Inr st \<Rightarrow> Inr \<lparr>vocab = cur_vocab st, merges = cur_merges st\<rparr>)"
    using t by blast
  then have d: "train_bpe [97] (Suc (Suc 0)) = Inl ValueError" using c by simp
  show ?thesis using h a b c d by (simp add: numeral_2_eq_2)
qed

lemma enc_abc_utf8: "utf8_encode [97, 98, 99] = Some [97, 98, 99]"
  by (simp add: utf8_encode_cp_def)

lemma sel_abc: "select_pair [97, 98, 99] = Inr (97, 98)"
  by (simp add: select_pair_def count_pairs_def adjacent_pairs_def dict_get_def)

lemma run_abc_0: "train_run [97, 98, 99] 0 = Inr (train_init [97, 98, 99])"
  unfolding train_run_def str_encode_def enc_abc_utf8 by simp

lemma run_abc_1:
  "train_run [97, 98, 99] (Suc 0) =
     Inr \<lparr>cur_indices = [256, 99], cur_merges = [((97, 98), 256)],
          cur_vocab = base_vocab @ [(256, [97, 98])]\<rparr>"
proof -
  have "train_iter 0 (train_init [97, 98, 99]) =
     Inr \<lparr>cur_indices = [256, 99], cur_merges = [((97, 98), 256)],
          cur_vocab = base_vocab @ [(256, [97, 98])]\<rparr>"
    using train_iter_eval [of "train_init [97, 98, 99]" "(97, 98)" "[97]" "[98]" 0]
      base_vocab_get [of 97] base_vocab_get [of 98]
    by (simp add: train_init_def sel_abc merge_eq_spec base_vocab_fresh)
  then show ?thesis
    using train_run_Suc [of "[97, 98, 99]" 0] run_abc_0 by simp
qed

text \<open>
  C3. At every training iteration that completes, the pair that \<open>train_bpe\<close> selects
  occurs in the current token sequence, its count in the frequency table is the number
  of its adjacent occurrences and no pair has more, and every other pair with the same
  count first occurs later in the left-to-right scan. The selected pair is the one that
  is merged and recorded with the token \<open>256 + k\<close>. The selection is a function of the
  current sequence, hence of the corpus and the iteration.
\<close>

theorem train_selects_earliest_most_frequent_pair:
  assumes "train_run corpus k = Inr st" and "train_run corpus (Suc k) = Inr st'"
  shows "\<exists>p. select_pair (cur_indices st) = Inr p
           \<and> p \<in> set (adjacent_pairs (cur_indices st))
           \<and> (\<forall>q\<in>set (adjacent_pairs (cur_indices st)).
                 count_list (adjacent_pairs (cur_indices st)) q
                 \<le> count_list (adjacent_pairs (cur_indices st)) p)
           \<and> (\<forall>q\<in>set (adjacent_pairs (cur_indices st)).
                 q \<noteq> p \<and> count_list (adjacent_pairs (cur_indices st)) q
                          = count_list (adjacent_pairs (cur_indices st)) p
                 \<longrightarrow> first_occurrence (adjacent_pairs (cur_indices st)) p
                      < first_occurrence (adjacent_pairs (cur_indices st)) q)
           \<and> (\<forall>q\<in>set (adjacent_pairs (cur_indices st)).
                 dict_get (count_pairs (cur_indices st)) q
                 = Some (int (count_list (adjacent_pairs (cur_indices st)) q)))
           \<and> cur_indices st' = merge (cur_indices st) p (256 + int k)
           \<and> dict_get (cur_merges st') p = Some (256 + int k)"
proof -
  have it: "train_iter k st = Inr st'" using assms by (simp add: train_run_Suc)
  from train_iter_Inr [OF it] obtain p v1 v2 where
    sel: "select_pair (cur_indices st) = Inr p"
    and st': "st' = \<lparr>cur_indices = merge (cur_indices st) p (256 + int k),
                     cur_merges = dict_set p (256 + int k) (cur_merges st),
                     cur_vocab = dict_set (256 + int k) (v1 @ v2) (cur_vocab st)\<rparr>"
    by blast
  have l: "2 \<le> length (cur_indices st)" using select_pair_Inr [OF sel] by simp
  from select_pair_earliest [OF l] sel have
    e: "p \<in> set (adjacent_pairs (cur_indices st))"
       "\<forall>q\<in>set (adjacent_pairs (cur_indices st)).
                 count_list (adjacent_pairs (cur_indices st)) q
                 \<le> count_list (adjacent_pairs (cur_indices st)) p"
       "\<forall>q\<in>set (adjacent_pairs (cur_indices st)).
                 q \<noteq> p \<and> count_list (adjacent_pairs (cur_indices st)) q
                          = count_list (adjacent_pairs (cur_indices st)) p
                 \<longrightarrow> first_occurrence (adjacent_pairs (cur_indices st)) p
                      < first_occurrence (adjacent_pairs (cur_indices st)) q"
    by auto
  have c: "\<forall>q\<in>set (adjacent_pairs (cur_indices st)).
                 dict_get (count_pairs (cur_indices st)) q
                 = Some (int (count_list (adjacent_pairs (cur_indices st)) q))"
    by (simp add: dict_get_def count_pairs_def counts_lookup)
  have m: "dict_get (cur_merges st') p = Some (256 + int k)"
    by (simp add: st' dict_get_dict_set)
  have i: "cur_indices st' = merge (cur_indices st) p (256 + int k)" by (simp add: st')
  show ?thesis using sel e c m i by blast
qed

theorem train_selects_earliest_most_frequent_pair_witness:
  "train_run [97, 98, 99] 0 = Inr (train_init [97, 98, 99])
   \<and> train_run [97, 98, 99] (Suc 0)
       = Inr \<lparr>cur_indices = [256, 99], cur_merges = [((97, 98), 256)],
              cur_vocab = base_vocab @ [(256, [97, 98])]\<rparr>
   \<and> select_pair [97, 98, 99] = Inr (97, 98)
   \<and> count_list (adjacent_pairs [97, 98, 99]) (98, 99) = count_list (adjacent_pairs [97, 98, 99]) (97, 98)
   \<and> first_occurrence (adjacent_pairs [97, 98, 99]) (97, 98)
       < first_occurrence (adjacent_pairs [97, 98, 99]) (98, 99)"
proof -
  note t = train_selects_earliest_most_frequent_pair [OF run_abc_0 run_abc_1]
  then obtain p where p: "select_pair (cur_indices (train_init [97, 98, 99])) = Inr p"
    "\<forall>q\<in>set (adjacent_pairs (cur_indices (train_init [97, 98, 99]))).
        q \<noteq> p \<and> count_list (adjacent_pairs (cur_indices (train_init [97, 98, 99]))) q
                 = count_list (adjacent_pairs (cur_indices (train_init [97, 98, 99]))) p
        \<longrightarrow> first_occurrence (adjacent_pairs (cur_indices (train_init [97, 98, 99]))) p
             < first_occurrence (adjacent_pairs (cur_indices (train_init [97, 98, 99]))) q"
    by blast
  have ci: "cur_indices (train_init [97, 98, 99]) = [97, 98, 99]" by (simp add: train_init_def)
  have pe: "p = (97, 98)" using p(1) unfolding ci sel_abc by simp
  have cnt: "count_list (adjacent_pairs [97, 98, 99]) (98, 99)
             = count_list (adjacent_pairs [97, 98, 99]) (97, 98)" by simp
  have "(98, 99) \<in> set (adjacent_pairs [97, 98, 99])" by simp
  then have "first_occurrence (adjacent_pairs [97, 98, 99]) (97, 98)
       < first_occurrence (adjacent_pairs [97, 98, 99]) (98, 99)"
    using p(2) [unfolded ci pe] cnt by fastforce
  then show ?thesis using run_abc_0 run_abc_1 sel_abc cnt by blast
qed

subsection \<open>Further lemmas about training runs\<close>

lemma learned_rule_at:
  assumes enc: "utf8_encode s = Some bs" and run: "train_run s k = Inr st" and j: "j < k"
  shows "\<exists>stj p v. train_run s j = Inr stj \<and> select_pair (cur_indices stj) = Inr p
           \<and> p \<notin> set (map fst (cur_merges stj))
           \<and> cur_merges stj = take j (cur_merges st)
           \<and> cur_merges st ! j = (p, 256 + int j)
           \<and> cur_vocab stj = take (256 + j) (cur_vocab st)
           \<and> cur_vocab st ! (256 + j) = (256 + int j, v)"
proof -
  from train_run_prefix [OF enc run, of j] j obtain stj where
    stj: "train_run s j = Inr stj" "cur_merges stj = take j (cur_merges st)"
         "cur_vocab stj = take (256 + j) (cur_vocab st)"
    by auto
  from train_run_prefix [OF enc run, of "Suc j"] j obtain stj' where
    stj': "train_run s (Suc j) = Inr stj'" "cur_merges stj' = take (Suc j) (cur_merges st)"
         "cur_vocab stj' = take (256 + Suc j) (cur_vocab st)"
    by auto
  have it: "train_iter j stj = Inr stj'" using stj(1) stj'(1) by (simp add: train_run_Suc)
  have inv: "train_inv bs j stj" using train_run_inv [OF enc stj(1)] .
  from train_iter_append [OF inv it] obtain p v where
    p: "select_pair (cur_indices stj) = Inr p" "p \<notin> set (map fst (cur_merges stj))"
       "cur_merges stj' = cur_merges stj @ [(p, 256 + int j)]"
       "cur_vocab stj' = cur_vocab stj @ [(256 + int j, v)]"
    by blast
  have len: "length (cur_merges stj) = j" "length (cur_vocab stj) = 256 + j"
    using train_inv_lengths [OF inv] .
  have invk: "train_inv bs k st" using train_run_inv [OF enc run] .
  have lenk: "length (cur_merges st) = k" "length (cur_vocab st) = 256 + k"
    using train_inv_lengths [OF invk] .
  have "cur_merges st ! j = take (Suc j) (cur_merges st) ! j" by simp
  also have "\<dots> = (cur_merges stj @ [(p, 256 + int j)]) ! j" using stj'(2) p(3) by simp
  also have "\<dots> = (p, 256 + int j)" using len(1) by (simp add: nth_append)
  finally have m: "cur_merges st ! j = (p, 256 + int j)" .
  have "cur_vocab st ! (256 + j) = take (256 + Suc j) (cur_vocab st) ! (256 + j)" by simp
  also have "\<dots> = (cur_vocab stj @ [(256 + int j, v)]) ! (256 + j)" using stj'(3) p(4) by simp
  also have "\<dots> = (256 + int j, v)" using len(2) by (simp add: nth_append)
  finally have v: "cur_vocab st ! (256 + j) = (256 + int j, v)" .
  show ?thesis using stj p(1,2) m v by blast
qed

lemma dict_get_take:
  "dict_get (take n d) t = Some v \<Longrightarrow> dict_get d t = Some v"
proof -
  assume a: "dict_get (take n d) t = Some v"
  have "map_of d = map_of (drop n d) ++ map_of (take n d)"
    using map_of_append [of "take n d" "drop n d"] by simp
  then show ?thesis using a by (simp add: dict_get_def map_add_def)
qed

lemma base_vocab_get_all:
  "dict_get base_vocab t = (if 0 \<le> t \<and> t < 256 then Some [nat t] else None)"
proof (cases "0 \<le> t \<and> t < 256")
  case True
  then have n: "nat t < 256" "int (nat t) = t" by linarith+
  have "dict_get base_vocab (int (nat t)) = Some [nat t]" using base_vocab_get [OF n(1)] .
  then have "dict_get base_vocab t = Some [nat t]" unfolding n(2) .
  then show ?thesis using True by (simp only: if_True simp_thms)
next
  case False
  then have "t \<notin> set (map fst base_vocab)" unfolding base_vocab_keys by auto
  then have "map_of base_vocab t = None" by (simp add: map_of_eq_None_iff)
  then show ?thesis using False by (simp add: dict_get_def)
qed

lemma dict_get_append:
  "dict_get (d @ e) t = (case dict_get d t of None \<Rightarrow> dict_get e t | Some v \<Rightarrow> Some v)"
  by (simp add: dict_get_def map_add_def split: option.splits)

lemma abab_vocab_get:
  "dict_get (base_vocab @ [(256, [97, 98])]) t =
     (if 0 \<le> t \<and> t < 256 then Some [nat t] else if t = 256 then Some [97, 98] else None)"
  by (simp add: dict_get_append base_vocab_get_all) (simp add: dict_get_def)

lemma sel_256_256: "select_pair [256, 256] = Inr (256, 256)"
  by (simp add: select_pair_def count_pairs_def adjacent_pairs_def dict_get_def)

lemma run_abab_2:
  "train_run [97, 98, 97, 98] 2 =
     Inr \<lparr>cur_indices = [257], cur_merges = [((97, 98), 256), ((256, 256), 257)],
          cur_vocab = base_vocab @ [(256, [97, 98]), (257, [97, 98, 97, 98])]\<rparr>"
proof -
  let ?st1 = "\<lparr>cur_indices = [256, 256], cur_merges = [((97, 98), 256)],
          cur_vocab = base_vocab @ [(256, [97, 98])]\<rparr>"
  have fresh: "257 \<notin> set (map fst (base_vocab @ [(256, [97, 98])]))"
    by (auto simp: base_vocab_keys)
  have "train_iter 1 ?st1 =
     Inr \<lparr>cur_indices = [257], cur_merges = [((97, 98), 256), ((256, 256), 257)],
          cur_vocab = base_vocab @ [(256, [97, 98]), (257, [97, 98, 97, 98])]\<rparr>"
    using train_iter_eval [of ?st1 "(256, 256)" "[97, 98]" "[97, 98]" 1]
      dict_set_fresh [OF fresh, of "[97, 98, 97, 98]"]
    by (simp add: sel_256_256 abab_vocab_get merge_eq_spec)
  moreover have "train_run [97, 98, 97, 98] (Suc 1) =
      (case train_run [97, 98, 97, 98] 1 of Inl e \<Rightarrow> Inl e | Inr st \<Rightarrow> train_iter 1 st)"
    by (rule train_run_Suc)
  ultimately show ?thesis unfolding run_abab_1 by (simp add: numeral_2_eq_2)
qed

text \<open>
  C5, as stated, fails: \<open>encode\<close> is not total on Python strings. A string holding a
  lone surrogate code point has no UTF-8 encoding, \<open>string.encode("utf-8")\<close> raises
  \<open>UnicodeEncodeError\<close>, and \<open>encode\<close> fails with it, here for a trained tokenizer.
\<close>

theorem encode_lone_surrogate_raises:
  "train_bpe [97, 98, 97, 98] 1
     = Inr \<lparr>vocab = base_vocab @ [(256, [97, 98])], merges = [((97, 98), 256)]\<rparr>
   \<and> encode \<lparr>vocab = base_vocab @ [(256, [97, 98])], merges = [((97, 98), 256)]\<rparr> [0xD800]
       = Inl UnicodeEncodeError"
  using bpe_abab_1
  by (simp add: encode_def str_encode_def utf8_encode_cp_def is_surrogate_def)

text \<open>
  C5, amended. For parameters returned by \<open>train_bpe\<close> after \<open>k\<close> merges, the merge
  rules are exactly the \<open>k\<close> learned rules in the order they were learned: entry \<open>j\<close> is
  the pair selected at iteration \<open>j\<close> with the token \<open>256 + j\<close>. For every string that
  has a UTF-8 encoding, \<open>encode\<close> returns the result of applying \<open>merge\<close> once per rule,
  in that order, starting from the byte-valued tokens of the encoding. For a string
  without a UTF-8 encoding it raises \<open>UnicodeEncodeError\<close>.
\<close>

theorem encode_applies_rules_in_learned_order:
  assumes "train_bpe corpus k = Inr params"
  shows "length (merges params) = k
       \<and> (\<forall>j<k. \<exists>st p. train_run corpus j = Inr st \<and> select_pair (cur_indices st) = Inr p
                    \<and> merges params ! j = (p, 256 + int j))
       \<and> (\<forall>s bs. str_encode s = Inr bs \<longrightarrow>
             encode params s
             = Inr (fold (\<lambda>(pair, new_index) indices. merge indices pair new_index)
                      (merges params) (map int bs)))
       \<and> (\<forall>s e. str_encode s = Inl e \<longrightarrow> encode params s = Inl UnicodeEncodeError)"
proof -
  obtain st where st: "train_run corpus k = Inr st"
    and params: "params = \<lparr>vocab = cur_vocab st, merges = cur_merges st\<rparr>"
    using assms by (auto simp: train_bpe_Inr)
  obtain cbs where enc: "utf8_encode corpus = Some cbs" using train_run_encodable [OF st] by blast
  have inv: "train_inv cbs k st" using train_run_inv [OF enc st] .
  have a: "length (merges params) = k" using train_inv_lengths(1) [OF inv] by (simp add: params)
  have b: "\<forall>j<k. \<exists>st p. train_run corpus j = Inr st \<and> select_pair (cur_indices st) = Inr p
                    \<and> merges params ! j = (p, 256 + int j)"
  proof (intro allI impI)
    fix j assume "j < k"
    from learned_rule_at [OF enc st this] obtain stj p where
      "train_run corpus j = Inr stj" "select_pair (cur_indices stj) = Inr p"
      "cur_merges st ! j = (p, 256 + int j)"
      by blast
    then show "\<exists>st p. train_run corpus j = Inr st \<and> select_pair (cur_indices st) = Inr p
                    \<and> merges params ! j = (p, 256 + int j)"
      unfolding params by auto
  qed
  have c: "\<forall>s bs. str_encode s = Inr bs \<longrightarrow>
             encode params s
             = Inr (fold (\<lambda>(pair, new_index) indices. merge indices pair new_index)
                      (merges params) (map int bs))"
    by (simp add: encode_def)
  have d: "\<forall>s e. str_encode s = Inl e \<longrightarrow> encode params s = Inl UnicodeEncodeError"
    by (auto simp: encode_def str_encode_def split: option.splits)
  show ?thesis using a b c d by blast
qed

theorem encode_applies_rules_in_learned_order_witness:
  "train_bpe [97, 98, 97, 98] 1
     = Inr \<lparr>vocab = base_vocab @ [(256, [97, 98])], merges = [((97, 98), 256)]\<rparr>
   \<and> str_encode [97, 98, 99] = Inr [97, 98, 99]
   \<and> encode \<lparr>vocab = base_vocab @ [(256, [97, 98])], merges = [((97, 98), 256)]\<rparr> [97, 98, 99]
       = Inr [256, 99]"
proof -
  note t = encode_applies_rules_in_learned_order [OF bpe_abab_1]
  have "\<forall>s bs. str_encode s = Inr bs \<longrightarrow>
          encode \<lparr>vocab = base_vocab @ [(256, [97, 98])], merges = [((97, 98), 256)]\<rparr> s
          = Inr (fold (\<lambda>(pair, new_index) indices. merge indices pair new_index)
                   (merges \<lparr>vocab = base_vocab @ [(256, [97, 98])], merges = [((97, 98), 256)]\<rparr>)
                   (map int bs))"
    using t by blast
  from this [rule_format, OF enc_abc]
  have "encode \<lparr>vocab = base_vocab @ [(256, [97, 98])], merges = [((97, 98), 256)]\<rparr> [97, 98, 99]
       = Inr [256, 99]"
    by (simp add: merge_eq_spec)
  then show ?thesis using bpe_abab_1 enc_abc by blast
qed

text \<open>
  C6. \<open>decode\<close> fails at the join (Python's \<open>TypeError\<close>, the specification's
  unknown-token error) exactly when some token of the input has no vocabulary entry;
  otherwise it fails with \<open>UnicodeDecodeError\<close> exactly when the concatenation of the
  tokens' byte expansions is not the UTF-8 encoding of any string; otherwise it returns
  the string whose UTF-8 encoding is that concatenation. It raises no other error.
\<close>

theorem decode_outcome:
  "(decode params indices = Inl TypeError
      \<longleftrightarrow> (\<exists>t\<in>set indices. dict_get (vocab params) t = None))
   \<and> (decode params indices = Inl UnicodeDecodeError
      \<longleftrightarrow> (\<forall>t\<in>set indices. dict_get (vocab params) t \<noteq> None)
          \<and> (\<forall>s. utf8_encode s
                   \<noteq> Some (concat (map (\<lambda>t. the (dict_get (vocab params) t)) indices))))
   \<and> (decode params indices = Inr s
      \<longleftrightarrow> (\<forall>t\<in>set indices. dict_get (vocab params) t \<noteq> None)
          \<and> utf8_encode s = Some (concat (map (\<lambda>t. the (dict_get (vocab params) t)) indices)))
   \<and> (\<forall>e. decode params indices = Inl e \<longrightarrow> e = TypeError \<or> e = UnicodeDecodeError)"
proof (cases "\<exists>t\<in>set indices. dict_get (vocab params) t = None")
  case True
  then have "decode params indices = Inl TypeError" by (simp add: decode_eq)
  then show ?thesis using True by auto
next
  case False
  let ?bs = "concat (map (\<lambda>t. the (dict_get (vocab params) t)) indices)"
  have d: "decode params indices = bytes_decode ?bs"
    using False by (simp only: decode_eq if_False)
  show ?thesis
  proof (cases "utf8_decode ?bs")
    case None
    then have "decode params indices = Inl UnicodeDecodeError" by (simp add: d bytes_decode_def)
    moreover have "\<forall>s. utf8_encode s \<noteq> Some ?bs" using None by (simp add: utf8_decode_None_iff)
    ultimately show ?thesis using False by auto
  next
    case (Some s')
    then have "decode params indices = Inr s'" by (simp add: d bytes_decode_def)
    moreover have "\<And>s. utf8_encode s = Some ?bs \<longleftrightarrow> s = s'"
      using Some utf8_decode_Some_iff by (metis option.inject)
    ultimately show ?thesis using False by auto
  qed
qed

theorem decode_outcome_witness:
  "decode \<lparr>vocab = base_vocab @ [(256, [97, 98])], merges = [((97, 98), 256)]\<rparr> [256, 99]
     = Inr [97, 98, 99]
   \<and> decode \<lparr>vocab = base_vocab @ [(256, [97, 98])], merges = [((97, 98), 256)]\<rparr> [300]
     = Inl TypeError
   \<and> decode \<lparr>vocab = base_vocab @ [(256, [97, 98])], merges = [((97, 98), 256)]\<rparr> [128]
     = Inl UnicodeDecodeError"
proof -
  let ?P = "\<lparr>vocab = base_vocab @ [(256, [97, 98])], merges = [((97, 98), 256)]\<rparr>"
  have a: "decode ?P [256, 99] = Inr [97, 98, 99]"
    using decode_outcome [of ?P "[256, 99]" "[97, 98, 99]"]
    by (simp add: abab_vocab_get utf8_encode_cp_def)
  have b: "decode ?P [300] = Inl TypeError"
    using decode_outcome [of ?P "[300]"] by (simp add: abab_vocab_get)
  have "utf8_decode [128] = None" by simp
  then have "\<forall>s. utf8_encode s \<noteq> Some [128]"
    using utf8_decode_None_iff [of "[128]"] by blast
  then have c: "decode ?P [128] = Inl UnicodeDecodeError"
    using decode_outcome [of ?P "[128]"] by (simp add: abab_vocab_get)
  show ?thesis using a b c by blast
qed

text \<open>
  C7. In every vocabulary that \<open>train_bpe\<close> returns: each token below 256 expands to
  its own single byte; for each learned rule, the expansion of its token is the
  concatenation of the expansions of the pair's two tokens; and the vocabulary after any
  smaller number \<open>j\<close> of merges is the first \<open>256 + j\<close> entries of the final one, so that
  every expansion assigned during training is still the token's expansion at the end.
\<close>

theorem vocab_expansion_invariant:
  assumes "train_bpe corpus k = Inr params"
  shows "(\<forall>t<256. dict_get (vocab params) (int t) = Some [t])
       \<and> (\<forall>r\<in>set (merges params). \<exists>va vb.
             dict_get (vocab params) (fst (fst r)) = Some va
             \<and> dict_get (vocab params) (snd (fst r)) = Some vb
             \<and> dict_get (vocab params) (snd r) = Some (va @ vb))
       \<and> (\<forall>j\<le>k. \<exists>pj. train_bpe corpus j = Inr pj
             \<and> vocab pj = take (256 + j) (vocab params)
             \<and> (\<forall>t v. dict_get (vocab pj) t = Some v \<longrightarrow> dict_get (vocab params) t = Some v))"
proof -
  obtain st where st: "train_run corpus k = Inr st"
    and params: "params = \<lparr>vocab = cur_vocab st, merges = cur_merges st\<rparr>"
    using assms by (auto simp: train_bpe_Inr)
  obtain cbs where enc: "utf8_encode corpus = Some cbs" using train_run_encodable [OF st] by blast
  have inv: "train_inv cbs k st" using train_run_inv [OF enc st] .
  have a: "\<forall>t<256. dict_get (vocab params) (int t) = Some [t]"
    using inv unfolding train_inv_def params by simp
  have b: "\<forall>r\<in>set (merges params). \<exists>va vb.
             dict_get (vocab params) (fst (fst r)) = Some va
             \<and> dict_get (vocab params) (snd (fst r)) = Some vb
             \<and> dict_get (vocab params) (snd r) = Some (va @ vb)"
    using inv unfolding train_inv_def params by simp
  have c: "\<forall>j\<le>k. \<exists>pj. train_bpe corpus j = Inr pj
             \<and> vocab pj = take (256 + j) (vocab params)
             \<and> (\<forall>t v. dict_get (vocab pj) t = Some v \<longrightarrow> dict_get (vocab params) t = Some v)"
  proof (intro allI impI)
    fix j assume "j \<le> k"
    from train_run_prefix [OF enc st this] obtain stj where
      stj: "train_run corpus j = Inr stj" "cur_vocab stj = take (256 + j) (cur_vocab st)"
      by blast
    let ?pj = "\<lparr>vocab = cur_vocab stj, merges = cur_merges stj\<rparr>"
    have "train_bpe corpus j = Inr ?pj" using stj(1) by (simp add: train_bpe_def)
    moreover have "vocab ?pj = take (256 + j) (vocab params)" using stj(2) by (simp add: params)
    moreover have "\<forall>t v. dict_get (vocab ?pj) t = Some v \<longrightarrow> dict_get (vocab params) t = Some v"
      using stj(2) dict_get_take [of "256 + j" "cur_vocab st"] by (simp add: params)
    ultimately show "\<exists>pj. train_bpe corpus j = Inr pj
             \<and> vocab pj = take (256 + j) (vocab params)
             \<and> (\<forall>t v. dict_get (vocab pj) t = Some v \<longrightarrow> dict_get (vocab params) t = Some v)"
      by blast
  qed
  show ?thesis using a b c by blast
qed

theorem vocab_expansion_invariant_witness:
  "train_bpe [97, 98, 97, 98] 1
     = Inr \<lparr>vocab = base_vocab @ [(256, [97, 98])], merges = [((97, 98), 256)]\<rparr>
   \<and> dict_get (base_vocab @ [(256, [97, 98])]) 97 = Some [97]
   \<and> dict_get (base_vocab @ [(256, [97, 98])]) 98 = Some [98]
   \<and> dict_get (base_vocab @ [(256, [97, 98])]) 256 = Some ([97] @ [98])
   \<and> train_bpe [97, 98, 97, 98] 0 = Inr \<lparr>vocab = base_vocab, merges = []\<rparr>
   \<and> base_vocab = take 256 (base_vocab @ [(256, [97, 98])])"
proof -
  note t = vocab_expansion_invariant [OF bpe_abab_1]
  have a: "\<forall>t<256. dict_get (base_vocab @ [(256, [97, 98])]) (int t) = Some [t]"
    using t by simp
  have a97: "dict_get (base_vocab @ [(256, [97, 98])]) 97 = Some [97]"
    using a [rule_format, of 97] by simp
  have a98: "dict_get (base_vocab @ [(256, [97, 98])]) 98 = Some [98]"
    using a [rule_format, of 98] by simp
  have "\<exists>va vb. dict_get (base_vocab @ [(256, [97, 98])]) 97 = Some va
          \<and> dict_get (base_vocab @ [(256, [97, 98])]) 98 = Some vb
          \<and> dict_get (base_vocab @ [(256, [97, 98])]) 256 = Some (va @ vb)"
    using t by simp
  then have b: "dict_get (base_vocab @ [(256, [97, 98])]) 256 = Some ([97] @ [98])"
    using a97 a98 by auto
  have c: "train_bpe [97, 98, 97, 98] 0 = Inr \<lparr>vocab = base_vocab, merges = []\<rparr>"
    by (simp add: train_bpe_def run_abab_0 train_init_def)
  have "\<exists>pj. train_bpe [97, 98, 97, 98] 0 = Inr pj
          \<and> vocab pj = take (256 + 0) (base_vocab @ [(256, [97, 98])])"
    using t by auto
  then have d: "base_vocab = take 256 (base_vocab @ [(256, [97, 98])])"
    using c by auto
  show ?thesis using bpe_abab_1 a97 a98 b c d by blast
qed

text \<open>
  C8. When \<open>train_bpe\<close> completes \<open>k\<close> merge steps, the vocabulary has exactly
  \<open>256 + k\<close> entries, with the pairwise distinct keys \<open>0, ..., 256 + k - 1\<close> in insertion
  order, and the learned tokens are \<open>256, ..., 256 + k - 1\<close> in order of creation.
\<close>

theorem vocab_growth:
  assumes "train_bpe corpus k = Inr params"
  shows "length (vocab params) = 256 + k
       \<and> map fst (vocab params) = map int [0..<256 + k]
       \<and> distinct (map fst (vocab params))
       \<and> map snd (merges params) = map int [256..<256 + k]
       \<and> (\<forall>j<k. snd (merges params ! j) = 256 + int j \<and> fst (vocab params ! (256 + j)) = 256 + int j)"
proof -
  obtain st where st: "train_run corpus k = Inr st"
    and params: "params = \<lparr>vocab = cur_vocab st, merges = cur_merges st\<rparr>"
    using assms by (auto simp: train_bpe_Inr)
  obtain cbs where enc: "utf8_encode corpus = Some cbs" using train_run_encodable [OF st] by blast
  have inv: "train_inv cbs k st" using train_run_inv [OF enc st] .
  have a: "length (vocab params) = 256 + k" using train_inv_lengths(2) [OF inv] by (simp add: params)
  have b: "map fst (vocab params) = map int [0..<256 + k]"
    using inv unfolding train_inv_def params by simp
  have c: "distinct (map fst (vocab params))" unfolding b by (simp add: distinct_map)
  have d: "map snd (merges params) = map int [256..<256 + k]"
    using inv unfolding train_inv_def params by simp
  have e: "\<forall>j<k. snd (merges params ! j) = 256 + int j \<and> fst (vocab params ! (256 + j)) = 256 + int j"
  proof (intro allI impI)
    fix j assume "j < k"
    from learned_rule_at [OF enc st this] show
      "snd (merges params ! j) = 256 + int j \<and> fst (vocab params ! (256 + j)) = 256 + int j"
      unfolding params by auto
  qed
  show ?thesis using a b c d e by blast
qed

theorem vocab_growth_witness:
  "train_bpe [97, 98, 97, 98] 1
     = Inr \<lparr>vocab = base_vocab @ [(256, [97, 98])], merges = [((97, 98), 256)]\<rparr>
   \<and> length (base_vocab @ [(256, [97, 98])]) = 257
   \<and> map snd [((97, 98), 256 :: int)] = [256]"
  using vocab_growth [OF bpe_abab_1] bpe_abab_1 by simp

text \<open>
  C9. In a run of \<open>train_bpe\<close>, the pair selected at iteration \<open>j\<close> is not yet a key of
  the merge rules, so recording it appends a new rule and overwrites none: after \<open>k\<close>
  iterations there are \<open>k\<close> rules with pairwise distinct pairs, rule \<open>j\<close> being the pair
  selected at iteration \<open>j\<close> with the token \<open>256 + j\<close>.
\<close>

theorem merged_pairs_never_repeat:
  assumes "train_run corpus k = Inr st"
  shows "distinct (map fst (cur_merges st)) \<and> length (cur_merges st) = k
       \<and> (\<forall>j<k. \<exists>stj p. train_run corpus j = Inr stj
             \<and> select_pair (cur_indices stj) = Inr p
             \<and> p \<notin> set (map fst (cur_merges stj))
             \<and> cur_merges stj = take j (cur_merges st)
             \<and> cur_merges st ! j = (p, 256 + int j))"
proof -
  obtain cbs where enc: "utf8_encode corpus = Some cbs" using train_run_encodable [OF assms] by blast
  have inv: "train_inv cbs k st" using train_run_inv [OF enc assms] .
  have a: "distinct (map fst (cur_merges st))" using inv unfolding train_inv_def by blast
  have b: "length (cur_merges st) = k" using train_inv_lengths(1) [OF inv] .
  have c: "\<forall>j<k. \<exists>stj p. train_run corpus j = Inr stj
             \<and> select_pair (cur_indices stj) = Inr p
             \<and> p \<notin> set (map fst (cur_merges stj))
             \<and> cur_merges stj = take j (cur_merges st)
             \<and> cur_merges st ! j = (p, 256 + int j)"
    using learned_rule_at [OF enc assms] by blast
  show ?thesis using a b c by blast
qed

theorem merged_pairs_never_repeat_witness:
  "train_run [97, 98, 97, 98] 2 =
     Inr \<lparr>cur_indices = [257], cur_merges = [((97, 98), 256), ((256, 256), 257)],
          cur_vocab = base_vocab @ [(256, [97, 98]), (257, [97, 98, 97, 98])]\<rparr>
   \<and> distinct [(97, 98), (256, 256 :: int)]
   \<and> length [((97, 98), 256), ((256, 256), 257 :: int)] = 2"
  using merged_pairs_never_repeat [OF run_abab_2] run_abab_2 by simp

text \<open>
  C10. After every number of completed merge steps, looking the tokens of the current
  sequence up in the current vocabulary and concatenating the results, in order, gives
  exactly the UTF-8 encoding of the corpus.
\<close>

theorem training_preserves_byte_expansion:
  assumes "str_encode corpus = Inr bs" and "train_run corpus k = Inr st"
  shows "join_bytes (map (dict_get (cur_vocab st)) (cur_indices st)) = Inr bs"
proof -
  have enc: "utf8_encode corpus = Some bs"
    using assms(1) by (auto simp: str_encode_def split: option.splits)
  have "train_inv bs k st" using train_run_inv [OF enc assms(2)] .
  then show ?thesis unfolding train_inv_def by blast
qed

theorem training_preserves_byte_expansion_witness:
  "str_encode [97, 98, 97, 98] = Inr [97, 98, 97, 98]
   \<and> train_run [97, 98, 97, 98] 1
       = Inr \<lparr>cur_indices = [256, 256], cur_merges = [((97, 98), 256)],
              cur_vocab = base_vocab @ [(256, [97, 98])]\<rparr>
   \<and> join_bytes (map (dict_get (base_vocab @ [(256, [97, 98])])) [256, 256])
       = Inr [97, 98, 97, 98]"
proof -
  have h: "str_encode [97, 98, 97, 98] = Inr [97, 98, 97, 98]"
    unfolding str_encode_def enc_abab by simp
  show ?thesis
    using training_preserves_byte_expansion [OF h run_abab_1] h run_abab_1 by simp
qed

end
